theory Spec2Isabelle
  imports Complex_Main "HOL-Library.Log_Nat"
begin

section \<open>Python values used by npysearch\<close>

text \<open>
  The module \<^verbatim>\<open>npysearch/__init__.py\<close> is modelled function by function.
  Python strings are \<^typ>\<open>string\<close> (lists of \<^typ>\<open>char\<close>, so code points up to 255);
  every exception the code can raise is a value of \<open>error\<close> and a function that can
  raise returns \<open>error + 'a\<close> with \<open>Inl\<close> for the exception. Assertions are modelled as
  they behave in the default interpreter mode (they are checked).
\<close>

datatype error =
    AssertionError
  | IndexError
  | KeyError
  | TypeError
  | ValueError
  | IOError
  | FileNotFoundError

text \<open>Sequencing of computations that may raise: the first exception wins.\<close>

definition bind :: "error + 'a \<Rightarrow> ('a \<Rightarrow> error + 'b) \<Rightarrow> error + 'b" where
  "bind m f = (case m of Inl e \<Rightarrow> Inl e | Inr x \<Rightarrow> f x)"

subsection \<open>Decimal rendering of integers: \<^verbatim>\<open>str(n)\<close>\<close>

definition digit_char :: "nat \<Rightarrow> char" where
  "digit_char d = char_of (48 + d)"

fun str_nat :: "nat \<Rightarrow> string" where
  "str_nat n = (if n < 10 then [digit_char n] else str_nat (n div 10) @ [digit_char (n mod 10)])"

declare str_nat.simps [simp del]

definition str_int :: "int \<Rightarrow> string" where
  "str_int z = (if z < 0 then CHR ''-'' # str_nat (nat (- z)) else str_nat (nat z))"

section \<open>The alignment encoder: \<^verbatim>\<open>cigarString\<close>\<close>

text \<open>
  \<^verbatim>\<open>matcher = {"|" : "=", " " : "X", "-" : "D"}\<close>; a lookup of any other key raises
  \<^verbatim>\<open>KeyError\<close>.
\<close>

definition matcher :: "char \<Rightarrow> error + string" where
  "matcher c =
     (if c = CHR ''|'' then Inr ''=''
      else if c = CHR '' '' then Inr ''X''
      else if c = CHR ''-'' then Inr ''D''
      else Inl KeyError)"

text \<open>
  The \<^verbatim>\<open>for i, character in enumerate(alignment)\<close> loop with its three variables
  \<^verbatim>\<open>flag\<close>, \<^verbatim>\<open>counter\<close>, \<^verbatim>\<open>cigar\<close>, followed by the statement after the loop
  that flushes the last run.
\<close>

fun cigar_loop :: "char \<Rightarrow> nat \<Rightarrow> string \<Rightarrow> string \<Rightarrow> error + string" where
  "cigar_loop flag counter cigar [] =
     bind (matcher flag) (\<lambda>m. Inr (cigar @ str_nat counter @ m))"
| "cigar_loop flag counter cigar (character # rest) =
     (if character = flag then cigar_loop flag (counter + 1) cigar rest
      else bind (matcher flag) (\<lambda>m.
             cigar_loop character 1 (cigar @ str_nat counter @ m) rest))"

text \<open>
  The three list comprehensions that build \<^verbatim>\<open>alignment\<close>: \<open>|\<close> where the characters
  agree and a blank where they differ, then \<open>-\<close> wherever the query has a gap, then \<open>-\<close>
  wherever the target has one. They run after the assertion, so every index is in range.
\<close>

definition alignment_of :: "string \<Rightarrow> string \<Rightarrow> string" where
  "alignment_of query target =
     (let alignment = map (\<lambda>i. if query ! i = target ! i then CHR ''|'' else CHR '' '')
                        [0..<length query];
          alignment' = map (\<lambda>i. if query ! i \<noteq> CHR ''-'' then alignment ! i else query ! i)
                        [0..<length alignment];
          alignment'' = map (\<lambda>i. if target ! i \<noteq> CHR ''-'' then alignment' ! i else target ! i)
                        [0..<length alignment']
      in alignment'')"

text \<open>
  \<^verbatim>\<open>assert len(query) == len(target)\<close> raises \<^verbatim>\<open>AssertionError\<close>;
  \<^verbatim>\<open>flag = alignment[0]\<close> raises \<^verbatim>\<open>IndexError\<close> on the empty string. The loop
  starts with \<^verbatim>\<open>counter = 0\<close> and runs over the whole of \<^verbatim>\<open>alignment\<close>.
\<close>

definition cigarString :: "string \<Rightarrow> string \<Rightarrow> error + string" where
  "cigarString query target =
     (if length query \<noteq> length target then Inl AssertionError
      else
        (case alignment_of query target of
           [] \<Rightarrow> Inl IndexError
         | flag # _ \<Rightarrow> cigar_loop flag 0 [] (alignment_of query target)))"

subsection \<open>Reading an encoded alignment back\<close>

text \<open>
  The specification describes an encoded alignment as a sequence of (count, class) spans
  flattened into a string, with the symbols \<open>=\<close> (match), \<open>X\<close> (mismatch) and \<open>D\<close> (gap).
  The decoder below follows that description: it reads a decimal count, then one symbol.
\<close>

datatype cls = Match | Mismatch | Gap

definition class_of_symbol :: "char \<Rightarrow> cls option" where
  "class_of_symbol c =
     (if c = CHR ''='' then Some Match
      else if c = CHR ''X'' then Some Mismatch
      else if c = CHR ''D'' then Some Gap
      else None)"

definition is_digit :: "char \<Rightarrow> bool" where
  "is_digit c = (48 \<le> (of_char c :: nat) \<and> (of_char c :: nat) \<le> 57)"

definition digit_val :: "char \<Rightarrow> nat" where
  "digit_val c = of_char c - 48"

fun parse_spans :: "nat option \<Rightarrow> string \<Rightarrow> (nat \<times> cls) list option" where
  "parse_spans acc [] = (case acc of None \<Rightarrow> Some [] | Some _ \<Rightarrow> None)"
| "parse_spans acc (c # cs) =
     (if is_digit c then
        parse_spans (Some (10 * (case acc of None \<Rightarrow> 0 | Some n \<Rightarrow> n) + digit_val c)) cs
      else
        (case (acc, class_of_symbol c) of
           (Some n, Some k) \<Rightarrow> map_option (\<lambda>r. (n, k) # r) (parse_spans None cs)
         | _ \<Rightarrow> None))"

definition expand :: "(nat \<times> cls) list \<Rightarrow> cls list" where
  "expand sp = concat (map (\<lambda>(n, k). replicate n k) sp)"

text \<open>The classification computed directly from the pair, position by position.\<close>

definition classify :: "string \<Rightarrow> string \<Rightarrow> cls list" where
  "classify query target =
     map (\<lambda>(q, t). if q = CHR ''-'' \<or> t = CHR ''-'' then Gap
                    else if q \<noteq> t then Mismatch else Match)
       (zip query target)"

section \<open>Python strings and lists\<close>

text \<open>
  \<^verbatim>\<open>str.isspace\<close> on the code points below 256: tab, line feed, vertical tab, form feed,
  carriage return (9 to 13), the four separators 28 to 31, space (32), next line (133)
  and no-break space (160). \<^verbatim>\<open>strip()\<close> and \<^verbatim>\<open>split()\<close> without arguments use this
  set.
\<close>

definition isspace :: "char \<Rightarrow> bool" where
  "isspace c =
     (c = CHR 0x09 \<or> c = CHR 0x0A \<or> c = CHR 0x0B \<or> c = CHR 0x0C \<or> c = CHR 0x0D
      \<or> c = CHR 0x1C \<or> c = CHR 0x1D \<or> c = CHR 0x1E \<or> c = CHR 0x1F
      \<or> c = CHR 0x20 \<or> c = CHR 0x85 \<or> c = CHR 0xA0)"

definition strip :: "string \<Rightarrow> string" where
  "strip s = rev (dropWhile isspace (rev (dropWhile isspace s)))"

text \<open>
  \<^verbatim>\<open>s.split()\<close>: the maximal runs of non-space characters, in order; \<open>cur\<close> is the
  token being read.
\<close>

fun split_aux :: "string \<Rightarrow> string \<Rightarrow> string list" where
  "split_aux cur [] = (if cur = [] then [] else [cur])"
| "split_aux cur (c # cs) =
     (if isspace c then (if cur = [] then split_aux [] cs else cur # split_aux [] cs)
      else split_aux (cur @ [c]) cs)"

definition split_ws :: "string \<Rightarrow> string list" where
  "split_ws s = split_aux [] s"

text \<open>\<^verbatim>\<open>s.split(sep)\<close> for a one-character separator: never empty, keeps empty fields.\<close>

fun split_on :: "char \<Rightarrow> string \<Rightarrow> string list" where
  "split_on sep [] = [[]]"
| "split_on sep (c # cs) =
     (if c = sep then [] # split_on sep cs
      else (case split_on sep cs of [] \<Rightarrow> [[c]] | t # ts \<Rightarrow> (c # t) # ts))"

text \<open>\<^verbatim>\<open>sep.join(xs)\<close> for a list of strings.\<close>

fun join :: "string \<Rightarrow> string list \<Rightarrow> string" where
  "join sep [] = []"
| "join sep [x] = x"
| "join sep (x # y # ys) = x @ sep @ join sep (y # ys)"

text \<open>
  \<^verbatim>\<open>xs[i]\<close>: a negative index counts from the end, an index out of range raises
  \<^verbatim>\<open>IndexError\<close>.
\<close>

definition py_nth :: "'a list \<Rightarrow> int \<Rightarrow> error + 'a" where
  "py_nth xs i =
     (if 0 \<le> i then
        (if nat i < length xs then Inr (xs ! nat i) else Inl IndexError)
      else
        (if nat (- i) \<le> length xs then Inr (xs ! (length xs - nat (- i)))
         else Inl IndexError))"

text \<open>
  \<^verbatim>\<open>xs[start:stop]\<close> with either bound optional: a negative bound counts from the end,
  both bounds are clamped to the list, and an empty range gives the empty list.
\<close>

definition py_slice :: "'a list \<Rightarrow> int option \<Rightarrow> int option \<Rightarrow> 'a list" where
  "py_slice xs start stop =
     (let n = int (length xs);
          norm = (\<lambda>i. if i < 0 then max 0 (n + i) else min n i);
          lo = (case start of None \<Rightarrow> 0 | Some i \<Rightarrow> norm i);
          hi = (case stop of None \<Rightarrow> n | Some i \<Rightarrow> norm i)
      in take (nat (hi - lo)) (drop (nat lo) xs))"

text \<open>\<^verbatim>\<open>s.index(c)\<close> for a one-character string: \<^verbatim>\<open>ValueError\<close> when \<open>c\<close> is absent.\<close>

definition str_index :: "string \<Rightarrow> char \<Rightarrow> error + nat" where
  "str_index s c = (if c \<in> set s then Inr (length (takeWhile (\<lambda>x. x \<noteq> c) s)) else Inl ValueError)"

section \<open>Python numbers read from strings\<close>

subsection \<open>\<^verbatim>\<open>int(s)\<close>\<close>

text \<open>
  A run of decimal digits in which single underscores may separate digits, as in
  \<^verbatim>\<open>1_000\<close>; \<open>acc\<close> is the value read so far, \<open>after_digit\<close> tells whether the previous
  character was a digit. The result is the value and the number of digits. The whole
  string has to be consumed.
\<close>

fun digit_run :: "int \<Rightarrow> nat \<Rightarrow> bool \<Rightarrow> string \<Rightarrow> (int \<times> nat) option" where
  "digit_run acc cnt after_digit [] = (if after_digit then Some (acc, cnt) else None)"
| "digit_run acc cnt after_digit (c # cs) =
     (if is_digit c then digit_run (10 * acc + int (digit_val c)) (cnt + 1) True cs
      else if c = CHR ''_'' \<and> after_digit then digit_run acc cnt False cs
      else None)"

text \<open>An optional sign in front of the rest of a literal.\<close>

definition take_sign :: "string \<Rightarrow> bool \<times> string" where
  "take_sign s =
     (case s of
        c # cs \<Rightarrow> (if c = CHR ''-'' then (True, cs) else if c = CHR ''+'' then (False, cs) else (False, s))
      | [] \<Rightarrow> (False, s))"

text \<open>
  \<^verbatim>\<open>int(s)\<close> for a string in base 10: surrounding white space is dropped, then an
  optional sign and a digit run; anything else raises \<^verbatim>\<open>ValueError\<close>.
\<close>

definition py_int :: "string \<Rightarrow> error + int" where
  "py_int s =
     (let (neg, body) = take_sign (strip s)
      in case digit_run 0 0 False body of
           None \<Rightarrow> Inl ValueError
         | Some (n, _) \<Rightarrow> Inr (if neg then - n else n))"

subsection \<open>\<^verbatim>\<open>float(s)\<close>\<close>

text \<open>
  A Python float is an IEEE 754 binary64 number. A finite float is modelled by the
  rational number it is exactly equal to (\<open>Fin 0\<close> is \<open>0.0\<close>), and negative zero,
  the two infinities and not-a-number are values of their own. \<^verbatim>\<open>float(s)\<close> is the
  value of the literal rounded to the nearest binary64 number, ties to the even
  significand; a result of magnitude \<open>2 ^ 1024\<close> or more becomes an infinity.
  \<^verbatim>\<open>float(s)\<close> raises for exactly the strings for which \<open>py_float\<close> returns
  \<^verbatim>\<open>ValueError\<close>.
\<close>

datatype flt = Fin rat | NegZero | PosInf | NegInf | NaN

definition pow2 :: "int \<Rightarrow> rat" where
  "pow2 e = (if 0 \<le> e then 2 ^ nat e else 1 / 2 ^ nat (- e))"

text \<open>For a positive rational \<open>a\<close>, the integer \<open>e\<close> with \<open>2 ^ e \<le> a < 2 ^ (e + 1)\<close>.\<close>

definition floor_log2 :: "rat \<Rightarrow> int" where
  "floor_log2 a =
     (let k = bitlen (fst (quotient_of a)) - bitlen (snd (quotient_of a))
      in if pow2 k \<le> a then k else k - 1)"

text \<open>The nearest integer, a tie going to the even one.\<close>

definition round_half_even :: "rat \<Rightarrow> int" where
  "round_half_even x =
     (let f = \<lfloor>x\<rfloor>; r = x - of_int f
      in if r < 1 / 2 then f
         else if 1 / 2 < r then f + 1
         else if even f then f else f + 1)"

text \<open>
  The binary64 number nearest to a real number given by its sign and its magnitude
  \<open>a \<ge> 0\<close>: the significand has 53 bits, the exponent of the last bit is at least
  \<open>- 1074\<close> (subnormal numbers), and a rounded magnitude of \<open>2 ^ 1024\<close> or more is an
  infinity.
\<close>

definition to_double :: "bool \<Rightarrow> rat \<Rightarrow> flt" where
  "to_double neg a =
     (if a = 0 then (if neg then NegZero else Fin 0)
      else
        let q = max (floor_log2 a) (- 1022) - 52;
            r = of_int (round_half_even (a / pow2 q)) * pow2 q
        in if r = 0 then (if neg then NegZero else Fin 0)
           else if 1024 \<le> floor_log2 r then (if neg then NegInf else PosInf)
           else Fin (if neg then - r else r))"

definition lower :: "char \<Rightarrow> char" where
  "lower c = (if 65 \<le> (of_char c :: nat) \<and> (of_char c :: nat) \<le> 90 then char_of ((of_char c :: nat) + 32) else c)"

text \<open>
  The digits before and after the decimal point: at least one of the two runs is not
  empty. Underscores may separate digits inside a run. The result is the value of the
  digits read as one integer, and the number of digits after the point.
\<close>

definition split_at_char :: "(char \<Rightarrow> bool) \<Rightarrow> string \<Rightarrow> string \<times> string option" where
  "split_at_char p s =
     (case dropWhile (\<lambda>c. \<not> p c) s of
        [] \<Rightarrow> (s, None)
      | _ # rest \<Rightarrow> (takeWhile (\<lambda>c. \<not> p c) s, Some rest))"

definition mantissa :: "string \<Rightarrow> (int \<times> nat) option" where
  "mantissa s =
     (case split_at_char (\<lambda>c. c = CHR ''.'') s of
        (ip, None) \<Rightarrow> map_option (\<lambda>(n, _). (n, 0)) (digit_run 0 0 False ip)
      | (ip, Some fp) \<Rightarrow>
          (if ip = [] then digit_run 0 0 False fp
           else (case digit_run 0 0 False ip of
                   None \<Rightarrow> None
                 | Some (n, _) \<Rightarrow>
                     (if fp = [] then Some (n, 0)
                      else (case digit_run 0 0 False fp of
                              None \<Rightarrow> None
                            | Some (m, k) \<Rightarrow> Some (n * 10 ^ k + m, k))))))"

definition exponent :: "string \<Rightarrow> int option" where
  "exponent s =
     (let (neg, body) = take_sign s
      in map_option (\<lambda>(n, _). if neg then - n else n) (digit_run 0 0 False body))"

definition pow10 :: "int \<Rightarrow> rat" where
  "pow10 e = (if 0 \<le> e then 10 ^ nat e else 1 / 10 ^ nat (- e))"

definition py_float :: "string \<Rightarrow> error + flt" where
  "py_float s =
     (let (neg, body) = take_sign (strip s); word = map lower body
      in if word = ''inf'' \<or> word = ''infinity'' then Inr (if neg then NegInf else PosInf)
         else if word = ''nan'' then Inr NaN
         else
           (case split_at_char (\<lambda>c. c = CHR ''e'' \<or> c = CHR ''E'') body of
              (m, ex) \<Rightarrow>
                (case (mantissa m, case ex of None \<Rightarrow> Some 0 | Some x \<Rightarrow> exponent x) of
                   (Some (n, k), Some e) \<Rightarrow>
                     Inr (to_double neg (of_int n * pow10 (e - int k)))
                 | _ \<Rightarrow> Inl ValueError)))"

text \<open>\<^verbatim>\<open>x / 100\<close> on floats: the exact quotient, rounded to binary64.\<close>

definition fdiv100 :: "flt \<Rightarrow> flt" where
  "fdiv100 x =
     (case x of
        Fin r \<Rightarrow> to_double (r < 0) (\<bar>r\<bar> / 100)
      | NegZero \<Rightarrow> NegZero
      | PosInf \<Rightarrow> PosInf
      | NegInf \<Rightarrow> NegInf
      | NaN \<Rightarrow> NaN)"

section \<open>The report parser: \<^verbatim>\<open>writeCSV\<close>\<close>

text \<open>
  A field of the row under construction is \<^verbatim>\<open>None\<close> or a string. The one field
  computed as \<^verbatim>\<open>str(float(...)/100)\<close> is kept as the float itself (\<open>Flt\<close>): \<^verbatim>\<open>str\<close>
  of a float is the shortest decimal string that reads back as the same float, so the
  text in the file and the float determine each other.
\<close>

datatype cell = Str string | Flt flt

type_synonym row = "cell option list"

definition header :: "string list" where
  "header = [''QueryId'', ''TargetId'', ''QueryMatchStart'',
             ''QueryMatchEnd'', ''TargetMatchStart'', ''TargetMatchEnd'',
             ''QueryMatchSeq'', ''TargetMatchSeq'', ''NumColumns'', ''NumMatches'',
             ''NumMismatches'', ''NumGaps'', ''Identity'', ''Alignment'']"

text \<open>\<^verbatim>\<open>row = [None] * 14\<close>\<close>

definition empty_row :: row where
  "empty_row = replicate 14 None"

text \<open>The body of \<^verbatim>\<open>if i%13==4\<close>.\<close>

definition at_offset_4 :: "string \<Rightarrow> row \<Rightarrow> error + row" where
  "at_offset_4 line row =
     bind (py_nth (split_ws (strip line)) 2) (\<lambda>t0.
       let row = row[0 := Some (Str (strip (py_slice t0 (Some 1) None)))] in
     bind (py_nth (split_ws (strip line)) 2) (\<lambda>t1.
       Inr (row[1 := Some (Str (strip (py_slice t1 (Some 1) None)))])))"

text \<open>
  The body of \<^verbatim>\<open>if i%13==7\<close>; the value of \<^verbatim>\<open>start\<close> is never used, but
  \<^verbatim>\<open>line.index("+")\<close> raises when the line has no \<open>+\<close>.
\<close>

definition at_offset_7 :: "string \<Rightarrow> row \<Rightarrow> error + row" where
  "at_offset_7 line row =
     bind (py_nth (split_ws (strip line)) 1) (\<lambda>t2.
       let row = row[2 := Some (Str (strip t2))] in
     bind (py_nth (split_ws (strip line)) (- 1)) (\<lambda>t3.
       let row = row[3 := Some (Str (strip t3))] in
     bind (py_nth (split_ws (strip line)) 3) (\<lambda>t6.
       let row = row[6 := Some (Str (strip t6))] in
     bind (str_index line CHR ''+'') (\<lambda>start.
       Inr row))))"

text \<open>The body of \<^verbatim>\<open>if i%13==9\<close>.\<close>

definition at_offset_9 :: "string \<Rightarrow> row \<Rightarrow> error + row" where
  "at_offset_9 line row =
     bind (py_nth (split_ws (strip line)) 1) (\<lambda>t4.
       let row = row[4 := Some (Str (strip t4))] in
     bind (py_nth (split_ws (strip line)) (- 1)) (\<lambda>t5.
       let row = row[5 := Some (Str (strip t5))] in
     bind (py_nth (split_ws (strip line)) 3) (\<lambda>t7.
       Inr (row[7 := Some (Str (strip t7))]))))"

text \<open>
  Reading a field back as a string argument: \<^verbatim>\<open>int(row[8])\<close> and
  \<^verbatim>\<open>cigarString(query = row[6], ...)\<close> raise \<^verbatim>\<open>TypeError\<close> on \<^verbatim>\<open>None\<close>.
\<close>

definition str_field :: "row \<Rightarrow> nat \<Rightarrow> error + string" where
  "str_field row k = (case row ! k of Some (Str s) \<Rightarrow> Inr s | _ \<Rightarrow> Inl TypeError)"

text \<open>The body of \<^verbatim>\<open>if i%13==11\<close>.\<close>

definition at_offset_11 :: "string \<Rightarrow> row \<Rightarrow> error + row" where
  "at_offset_11 line row =
     bind (py_nth (split_ws line) 0) (\<lambda>t8.
       let row = row[8 := Some (Str (strip t8))] in
     bind (py_nth (split_ws line) 2) (\<lambda>t9.
       let row = row[9 := Some (Str (strip t9))] in
     bind (str_field row 8) (\<lambda>s8. bind (py_int s8) (\<lambda>n8.
     bind (str_field row 9) (\<lambda>s9. bind (py_int s9) (\<lambda>n9.
       let row = row[10 := Some (Str (str_int (n8 - n9)))] in
     bind (py_nth (split_ws line) 5) (\<lambda>t11.
       let row = row[11 := Some (Str (strip t11))] in
     bind (py_nth (split_ws line) 4) (\<lambda>t12.
     bind (py_float (py_slice t12 (Some 1) (Some (- 3)))) (\<lambda>x.
       let row = row[12 := Some (Flt (fdiv100 x))] in
     bind (str_field row 6) (\<lambda>query.
     bind (str_field row 7) (\<lambda>target.
     bind (cigarString query target) (\<lambda>cigar.
       Inr (row[13 := Some (Str cigar)])))))))))))))"

text \<open>
  The body of \<^verbatim>\<open>if i%13==12\<close>: \<^verbatim>\<open>",".join(row)\<close> raises \<^verbatim>\<open>TypeError\<close> when a
  field is still \<^verbatim>\<open>None\<close>; otherwise the row is appended to the file and reset.
\<close>

definition at_offset_12 :: "row \<times> cell list list \<Rightarrow> error + row \<times> cell list list" where
  "at_offset_12 st =
     (case st of (row, out) \<Rightarrow>
        if list_all (\<lambda>c. c \<noteq> None) row then Inr (empty_row, out @ [map the row])
        else Inl TypeError)"

text \<open>One iteration of \<^verbatim>\<open>for i, line in enumerate(f)\<close>: the five tests in order.\<close>

definition process_line :: "nat \<Rightarrow> string \<Rightarrow> row \<times> cell list list \<Rightarrow> error + row \<times> cell list list" where
  "process_line i line st =
     bind (if i mod 13 = 4 then bind (at_offset_4 line (fst st)) (\<lambda>r. Inr (r, snd st)) else Inr st) (\<lambda>st.
     bind (if i mod 13 = 7 then bind (at_offset_7 line (fst st)) (\<lambda>r. Inr (r, snd st)) else Inr st) (\<lambda>st.
     bind (if i mod 13 = 9 then bind (at_offset_9 line (fst st)) (\<lambda>r. Inr (r, snd st)) else Inr st) (\<lambda>st.
     bind (if i mod 13 = 11 then bind (at_offset_11 line (fst st)) (\<lambda>r. Inr (r, snd st)) else Inr st) (\<lambda>st.
     (if i mod 13 = 12 then at_offset_12 st else Inr st)))))"

text \<open>
  The loop over the lines of the report. The state is the row under construction and
  the rows written so far; an exception leaves what was written in the file, so the
  result carries the written rows in both cases.
\<close>

fun writeCSV_loop :: "nat \<Rightarrow> string list \<Rightarrow> row \<times> cell list list \<Rightarrow> error option \<times> cell list list" where
  "writeCSV_loop i [] st = (None, snd st)"
| "writeCSV_loop i (line # lines) st =
     (case process_line i line st of
        Inl e \<Rightarrow> (Some e, snd st)
      | Inr st' \<Rightarrow> writeCSV_loop (i + 1) lines st')"

text \<open>
  The table written for a report given as the list of its lines: the header row, then
  the loop from line index 0 with an empty row.
\<close>

definition writeCSV_table :: "string list \<Rightarrow> error option \<times> cell list list" where
  "writeCSV_table lines = writeCSV_loop 0 lines (empty_row, [map Str header])"

section \<open>Well-formed reports\<close>

text \<open>
  The report is a sequence of 13-line blocks. A block is well formed when the lines at
  offsets 4, 7, 9 and 11 carry the tokens the parser reads: three tokens at offset 4,
  four at offsets 7 and 9 with a \<open>+\<close> on the query line, six at offset 11, of which the
  first and third read as integers and the fifth, without its first and its last three
  characters, reads as a float; and the two match substrings have the same length.
\<close>

definition wf_block :: "string list \<Rightarrow> bool" where
  "wf_block b =
     (let l4 = split_ws (strip (b ! 4)); l7 = split_ws (strip (b ! 7));
          l9 = split_ws (strip (b ! 9)); l11 = split_ws (b ! 11)
      in length b = 13 \<and> 3 \<le> length l4
       \<and> 4 \<le> length l7 \<and> CHR ''+'' \<in> set (b ! 7)
       \<and> 4 \<le> length l9
       \<and> 6 \<le> length l11
       \<and> \<not> isl (py_int (l11 ! 0)) \<and> \<not> isl (py_int (l11 ! 2))
       \<and> \<not> isl (py_float (py_slice (l11 ! 4) (Some 1) (Some (- 3))))
       \<and> length (l7 ! 3) = length (l9 ! 3))"

function blocks :: "'a list \<Rightarrow> 'a list list" where
  "blocks ls = (if length ls < 13 then [] else take 13 ls # blocks (drop 13 ls))"
  by pat_completeness auto
termination
  by (relation "measure length") auto

declare blocks.simps [simp del]

text \<open>
  The tokens the parser reads from the line with index \<open>i\<close>, the number of tokens it
  indexes there, and the lines that have fewer.
\<close>

definition tokens_at :: "nat \<Rightarrow> string \<Rightarrow> string list" where
  "tokens_at i line = (if i mod 13 = 11 then split_ws line else split_ws (strip line))"

definition required_tokens :: "nat \<Rightarrow> nat" where
  "required_tokens i =
     (if i mod 13 = 4 then 3 else if i mod 13 = 7 then 4 else if i mod 13 = 9 then 4
      else if i mod 13 = 11 then 6 else 0)"

definition lacks_token :: "nat \<Rightarrow> string \<Rightarrow> bool" where
  "lacks_token i line = (length (tokens_at i line) < required_tokens i)"

text \<open>
  One block in the layout the engine writes, with the percentage token of the summary
  line left open.
\<close>

definition sample_block :: "string \<Rightarrow> string list" where
  "sample_block pct =
     [''Query >query1'',
      '' %Id   TLen  Target'',
      '' 95%    100  target1'',
      '''',
      '' Query 4nt >query1'',
      ''Target 4nt >target1'',
      '''',
      ''Qry 1 + AC-T 4'',
      ''        || |'',
      ''Tgt 1 + ACGT 4'',
      '''',
      ''4 cols, 3 ids '' @ pct @ '' 1 gaps (25.0%)'',
      '''']"


section \<open>Auxiliary notions for the proofs\<close>

subsection \<open>For the encoder\<close>

text \<open>
  The alignment character and the output symbol of each class, the maximal runs of a
  class sequence (with the class and length of the run in progress), the rendering of a
  span list, and the value of a digit string read from the left.
\<close>

fun cls_char :: "cls \<Rightarrow> char" where
  "cls_char Match = CHR ''|''"
| "cls_char Mismatch = CHR '' ''"
| "cls_char Gap = CHR ''-''"

fun cls_symbol :: "cls \<Rightarrow> char" where
  "cls_symbol Match = CHR ''=''"
| "cls_symbol Mismatch = CHR ''X''"
| "cls_symbol Gap = CHR ''D''"

fun runs :: "cls \<Rightarrow> nat \<Rightarrow> cls list \<Rightarrow> (nat \<times> cls) list" where
  "runs f n [] = [(n, f)]"
| "runs f n (c # cs) = (if c = f then runs f (Suc n) cs else (n, f) # runs c 1 cs)"

definition render :: "(nat \<times> cls) list \<Rightarrow> string" where
  "render sp = concat (map (\<lambda>(n, k). str_nat n @ [cls_symbol k]) sp)"

definition dec :: "nat \<Rightarrow> string \<Rightarrow> nat" where
  "dec a ds = foldl (\<lambda>a c. 10 * a + digit_val c) a ds"


subsection \<open>For the report parser\<close>

text \<open>
  The loop without the written rows of a failing run, the four assignments of one block
  applied in order, the row a block yields, and the value of a digit string as an
  integer.
\<close>

fun run_lines :: "nat \<Rightarrow> string list \<Rightarrow> row \<times> cell list list \<Rightarrow> error + row \<times> cell list list" where
  "run_lines i [] st = Inr st"
| "run_lines i (line # lines) st = bind (process_line i line st) (run_lines (i + 1) lines)"

definition block_state :: "string list \<Rightarrow> row \<Rightarrow> error + row" where
  "block_state b row =
     bind (at_offset_4 (b ! 4) row) (\<lambda>r.
     bind (at_offset_7 (b ! 7) r) (\<lambda>r.
     bind (at_offset_9 (b ! 9) r) (\<lambda>r.
     at_offset_11 (b ! 11) r)))"

definition block_row :: "string list \<Rightarrow> error + cell list" where
  "block_row b =
     bind (block_state b empty_row) (\<lambda>r.
       if list_all (\<lambda>c. c \<noteq> None) r then Inr (map the r) else Inl TypeError)"

definition idec :: "int \<Rightarrow> string \<Rightarrow> int" where
  "idec a ds = foldl (\<lambda>a c. 10 * a + int (digit_val c)) a ds"


section \<open>Properties of the alignment encoder\<close>

lemma alignment_classify:
  assumes "length query = length target"
  shows "alignment_of query target = map cls_char (classify query target)"
proof (rule nth_equalityI)
  show "length (alignment_of query target) = length (map cls_char (classify query target))"
    using assms by (simp add: alignment_of_def classify_def Let_def)
next
  fix i
  assume "i < length (alignment_of query target)"
  then have "i < length query" by (simp add: alignment_of_def Let_def)
  with assms show "alignment_of query target ! i = map cls_char (classify query target) ! i"
    by (simp add: alignment_of_def classify_def Let_def)
qed

lemma matcher_cls [simp]: "matcher (cls_char k) = Inr [cls_symbol k]"
  by (cases k) (simp_all add: matcher_def)

lemma class_of_cls_symbol [simp]: "class_of_symbol (cls_symbol k) = Some k"
  by (cases k) (simp_all add: class_of_symbol_def)

lemma cls_symbol_not_digit [simp]: "\<not> is_digit (cls_symbol k)"
  by (cases k) (simp_all add: is_digit_def)

lemma cls_char_inj [simp]: "cls_char a = cls_char b \<longleftrightarrow> a = b"
  by (cases a; cases b) simp_all

lemma digit_char_digit: "d < 10 \<Longrightarrow> is_digit (digit_char d)"
  by (simp add: is_digit_def digit_char_def)

lemma digit_val_char: "d < 10 \<Longrightarrow> digit_val (digit_char d) = d"
  by (simp add: digit_val_def digit_char_def)

lemma str_nat_digits: "\<forall>c \<in> set (str_nat n). is_digit c"
proof (induction n rule: str_nat.induct)
  case (1 n)
  show ?case
  proof (cases "n < 10")
    case True
    then show ?thesis by (subst str_nat.simps) (simp add: digit_char_digit)
  next
    case False
    with 1 show ?thesis by (subst str_nat.simps) (simp add: digit_char_digit)
  qed
qed

lemma str_nat_nonempty: "str_nat n \<noteq> []"
  by (subst str_nat.simps) simp

lemma dec_append: "dec a (xs @ ys) = dec (dec a xs) ys"
  by (simp add: dec_def)

lemma dec_str_nat: "dec 0 (str_nat n) = n"
proof (induction n rule: str_nat.induct)
  case (1 n)
  show ?case
  proof (cases "n < 10")
    case True
    then show ?thesis by (subst str_nat.simps) (simp add: dec_def digit_val_char)
  next
    case False
    with 1 have "dec 0 (str_nat (n div 10)) = n div 10" by simp
    with False show ?thesis
      by (subst str_nat.simps) (simp add: dec_append, simp add: dec_def digit_val_char)
  qed
qed

lemma parse_digits:
  assumes "\<forall>c \<in> set ds. is_digit c" "ds \<noteq> []"
  shows "parse_spans acc (ds @ rest)
         = parse_spans (Some (dec (case acc of None \<Rightarrow> 0 | Some n \<Rightarrow> n) ds)) rest"
  using assms
proof (induction ds arbitrary: acc)
  case Nil
  then show ?case by simp
next
  case (Cons d ds)
  show ?case
  proof (cases "ds = []")
    case True
    with Cons.prems show ?thesis by (simp add: dec_def)
  next
    case False
    with Cons show ?thesis by (simp add: dec_def)
  qed
qed

lemma parse_render: "parse_spans None (render sp) = Some sp"
proof (induction sp)
  case Nil
  then show ?case by (simp add: render_def)
next
  case (Cons a sp)
  obtain n k where a: "a = (n, k)" by (cases a)
  have "render (a # sp) = str_nat n @ (cls_symbol k # render sp)"
    by (simp add: render_def a)
  then have "parse_spans None (render (a # sp))
             = parse_spans (Some (dec 0 (str_nat n))) (cls_symbol k # render sp)"
    using parse_digits [OF str_nat_digits str_nat_nonempty, of None n] by simp
  with Cons show ?case by (simp add: dec_str_nat a)
qed

lemma render_append: "render (xs @ ys) = render xs @ render ys"
  by (simp add: render_def)

lemma cigar_loop_runs:
  "cigar_loop (cls_char f) n cigar (map cls_char cs) = Inr (cigar @ render (runs f n cs))"
  by (induction cs arbitrary: f n cigar) (simp_all add: bind_def render_def)

lemma expand_runs: "expand (runs f n cs) = replicate n f @ cs"
  by (induction cs arbitrary: f n) (simp_all add: expand_def replicate_app_Cons_same)

lemma runs_positive: "(m, k) \<in> set (runs f n cs) \<Longrightarrow> 0 < n \<Longrightarrow> 0 < m"
  by (induction cs arbitrary: f n) (auto split: if_splits)

lemma runs_hd: "\<exists>m r. runs f n cs = (m, f) # r"
  by (induction cs arbitrary: n) auto

lemma runs_distinct_adj: "distinct_adj (map snd (runs f n cs))"
proof (induction cs arbitrary: f n)
  case Nil
  then show ?case by simp
next
  case (Cons c cs)
  obtain m r where "runs c 1 cs = (m, c) # r" using runs_hd by blast
  with Cons [of c 1] Cons [of f "Suc n"] show ?case by auto
qed


lemma cigarString_runs:
  assumes "length query = length target" and "classify query target = c # cs"
  shows "cigarString query target = Inr (render (runs c 1 cs))"
proof -
  have "cigar_loop (cls_char c) 0 [] (map cls_char (c # cs)) = Inr ([] @ render (runs c 0 (c # cs)))"
    by (rule cigar_loop_runs)
  then show ?thesis
    using assms by (simp add: cigarString_def alignment_classify)
qed


lemma cigarString_unequal: "length query \<noteq> length target \<Longrightarrow> cigarString query target = Inl AssertionError"
  by (simp add: cigarString_def)

lemma cigarString_empty: "cigarString [] [] = Inl IndexError"
  by (simp add: cigarString_def alignment_of_def)

lemma cigarString_succeeds:
  assumes "length query = length target" and "query \<noteq> []"
  shows "\<exists>s. cigarString query target = Inr s"
proof -
  from assms have "classify query target \<noteq> []"
    by (cases query; cases target) (simp_all add: classify_def)
  then obtain c cs where "classify query target = c # cs"
    by (cases "classify query target") auto
  with assms(1) show ?thesis by (auto dest: cigarString_runs)
qed

text \<open>
  C1. For equal-length non-empty strings the encoder returns a string that reads back as
  a list of (count, class) spans; expanding the spans gives exactly the per-position
  classification of the pair (gap where either character is \<open>-\<close>, else mismatch where the
  characters differ, else match); every count is positive and adjacent spans have
  different classes.
\<close>

theorem cigarString_roundtrip:
  assumes "length query = length target" and "query \<noteq> []"
  shows "\<exists>s sp. cigarString query target = Inr s \<and> parse_spans None s = Some sp
           \<and> expand sp = classify query target
           \<and> (\<forall>(n, k) \<in> set sp. 0 < n)
           \<and> distinct_adj (map snd sp)"
proof -
  from assms have "classify query target \<noteq> []"
    by (cases query; cases target) (simp_all add: classify_def)
  then obtain c cs where ccs: "classify query target = c # cs"
    by (cases "classify query target") auto
  let ?sp = "runs c 1 cs"
  have "cigarString query target = Inr (render ?sp)"
    using assms(1) ccs by (rule cigarString_runs)
  moreover have "parse_spans None (render ?sp) = Some ?sp"
    by (rule parse_render)
  moreover have "expand ?sp = classify query target"
    by (simp add: expand_runs ccs)
  moreover have "\<forall>(n, k) \<in> set ?sp. 0 < n"
    using runs_positive [of _ _ c 1 cs] by auto
  moreover have "distinct_adj (map snd ?sp)"
    by (rule runs_distinct_adj)
  ultimately show ?thesis by blast
qed

theorem cigarString_roundtrip_witness:
  "length ''AC-T'' = length ''ACGT'' \<and> ''AC-T'' \<noteq> []
   \<and> (\<exists>s sp. cigarString ''AC-T'' ''ACGT'' = Inr s \<and> parse_spans None s = Some sp
           \<and> expand sp = classify ''AC-T'' ''ACGT''
           \<and> (\<forall>(n, k) \<in> set sp. 0 < n)
           \<and> distinct_adj (map snd sp))"
  using cigarString_roundtrip [of "''AC-T''" "''ACGT''"] by simp

text \<open>The two concrete cases of the specification.\<close>

lemma cigarString_example_1: "cigarString ''ACGT'' ''ACGA'' = Inr ''3=1X''"
  by code_simp

lemma cigarString_example_2: "cigarString ''AC-T'' ''ACGT'' = Inr ''2=1D1=''"
  by code_simp

text \<open>
  C6, as stated: every pair that violates \<open>len(query) == len(target) > 0\<close>, the pair of
  empty strings included, fails with the length-mismatch error. The assertion only
  compares the lengths, so two empty strings pass it; the failure then comes from
  \<^verbatim>\<open>alignment[0]\<close> and is an \<^verbatim>\<open>IndexError\<close>.
\<close>

theorem cigarString_empty_counterexample:
  "cigarString [] [] = Inl IndexError \<and> cigarString [] [] \<noteq> Inl AssertionError"
  by (simp add: cigarString_def alignment_of_def)

text \<open>
  C6, amended. The encoder fails with the length-mismatch assertion exactly when the two
  lengths differ, fails with an index error exactly when both strings are empty, and
  returns an encoding exactly when the strings have equal, non-zero length.
\<close>

theorem cigarString_failures:
  "(cigarString query target = Inl AssertionError) = (length query \<noteq> length target)
   \<and> (cigarString query target = Inl IndexError) = (query = [] \<and> target = [])
   \<and> (\<exists>s. cigarString query target = Inr s) = (length query = length target \<and> query \<noteq> [])"
proof (cases "length query = length target")
  case False
  then show ?thesis by (auto simp: cigarString_unequal)
next
  case len: True
  show ?thesis
  proof (cases "query = []")
    case True
    with len show ?thesis by (simp add: cigarString_empty)
  next
    case False
    with len obtain s where "cigarString query target = Inr s"
      using cigarString_succeeds by blast
    with len False show ?thesis by auto
  qed
qed

theorem cigarString_failures_witness:
  "cigarString ''AC'' ''A'' = Inl AssertionError \<and> cigarString [] [] = Inl IndexError
   \<and> (\<exists>s. cigarString ''A'' ''C'' = Inr s)"
  using cigarString_failures [of "''AC''" "''A''"] cigarString_failures [of "[]" "[]"]
    cigarString_failures [of "''A''" "''C''"]
  by simp


section \<open>Properties of the report parser\<close>

subsection \<open>The loop\<close>

lemma bind_Inr [simp]: "bind (Inr x) f = f x"
  by (simp add: bind_def)

lemma bind_Inl [simp]: "bind (Inl e) f = Inl e"
  by (simp add: bind_def)

lemma bind_eq_Inr: "bind m f = Inr y \<longleftrightarrow> (\<exists>x. m = Inr x \<and> f x = Inr y)"
  by (cases m) simp_all

lemma process_line_idle:
  "i mod 13 \<notin> {4, 7, 9, 11, 12} \<Longrightarrow> process_line i line st = Inr st"
  by (simp add: process_line_def)

lemma process_line_4:
  "i mod 13 = 4 \<Longrightarrow> process_line i line st = bind (at_offset_4 line (fst st)) (\<lambda>r. Inr (r, snd st))"
  by (cases "at_offset_4 line (fst st)") (simp_all add: process_line_def)

lemma process_line_7:
  "i mod 13 = 7 \<Longrightarrow> process_line i line st = bind (at_offset_7 line (fst st)) (\<lambda>r. Inr (r, snd st))"
  by (cases "at_offset_7 line (fst st)") (simp_all add: process_line_def)

lemma process_line_9:
  "i mod 13 = 9 \<Longrightarrow> process_line i line st = bind (at_offset_9 line (fst st)) (\<lambda>r. Inr (r, snd st))"
  by (cases "at_offset_9 line (fst st)") (simp_all add: process_line_def)

lemma process_line_11:
  "i mod 13 = 11 \<Longrightarrow> process_line i line st = bind (at_offset_11 line (fst st)) (\<lambda>r. Inr (r, snd st))"
  by (cases "at_offset_11 line (fst st)") (simp_all add: process_line_def)

lemma process_line_12:
  "i mod 13 = 12 \<Longrightarrow> process_line i line st = at_offset_12 st"
  by (simp add: process_line_def)

lemma process_line_out:
  assumes "process_line i line st = Inr st'" and "i mod 13 \<noteq> 12"
  shows "snd st' = snd st"
proof -
  consider "i mod 13 = 4" | "i mod 13 = 7" | "i mod 13 = 9" | "i mod 13 = 11"
    | "i mod 13 \<notin> {4, 7, 9, 11, 12}"
    using assms(2) by auto
  then show ?thesis
    using assms(1)
    by cases (auto simp: process_line_4 process_line_7 process_line_9 process_line_11
        process_line_idle bind_eq_Inr)
qed

lemma at_offset_12_out:
  "at_offset_12 st = Inr st' \<Longrightarrow> fst st' = empty_row \<and> length (snd st') = Suc (length (snd st))"
  by (cases st) (auto simp: at_offset_12_def split: if_splits)

lemma process_line_length:
  assumes "process_line i line st = Inr st'"
  shows "length (snd st') = length (snd st) + (if i mod 13 = 12 then 1 else 0)"
proof (cases "i mod 13 = 12")
  case True
  with assms show ?thesis by (auto simp: process_line_12 dest: at_offset_12_out)
next
  case False
  with assms show ?thesis by (auto dest: process_line_out)
qed

lemma loop_run_Inr: "run_lines i ls st = Inr s \<Longrightarrow> writeCSV_loop i ls st = (None, snd s)"
  by (induction ls arbitrary: i st) (auto simp: bind_eq_Inr)

lemma loop_append:
  "writeCSV_loop i (xs @ ys) st =
     (case run_lines i xs st of
        Inl e \<Rightarrow> writeCSV_loop i xs st
      | Inr s \<Rightarrow> writeCSV_loop (i + length xs) ys s)"
proof (induction xs arbitrary: i st)
  case Nil
  then show ?case by simp
next
  case (Cons x xs)
  show ?case
  proof (cases "process_line i x st")
    case (Inl e)
    then show ?thesis by simp
  next
    case (Inr st')
    then show ?thesis using Cons [of "i + 1" st'] by (simp split: sum.split)
  qed
qed

lemma loop_no_emit:
  "i mod 13 + length ls \<le> 12 \<Longrightarrow> snd (writeCSV_loop i ls st) = snd st"
proof (induction ls arbitrary: i st)
  case Nil
  then show ?case by simp
next
  case (Cons l ls)
  from Cons.prems have ne: "i mod 13 \<noteq> 12" by simp
  show ?case
  proof (cases "process_line i l st")
    case (Inl e)
    then show ?thesis by simp
  next
    case (Inr st')
    from Cons.prems have "(i + 1) mod 13 + length ls \<le> 12"
      by (simp add: mod_Suc)
    then have "snd (writeCSV_loop (i + 1) ls st') = snd st'" by (rule Cons.IH)
    with Inr ne show ?thesis by (simp add: process_line_out)
  qed
qed

lemma loop_idle:
  "i mod 13 + length ls \<le> 4 \<Longrightarrow> writeCSV_loop i ls st = (None, snd st)"
proof (induction ls arbitrary: i)
  case Nil
  then show ?case by simp
next
  case (Cons l ls)
  from Cons.prems have "i mod 13 \<notin> {4, 7, 9, 11, 12}" by auto
  then have "process_line i l st = Inr st" by (rule process_line_idle)
  moreover from Cons.prems have "(i + 1) mod 13 + length ls \<le> 4"
    by (simp add: mod_Suc)
  ultimately show ?case using Cons.IH [of "i + 1"] by simp
qed

lemma loop_length:
  "length (snd (writeCSV_loop i ls st)) \<le> length (snd st) + (i mod 13 + length ls) div 13"
proof (induction ls arbitrary: i st)
  case Nil
  then show ?case by simp
next
  case (Cons l ls)
  show ?case
  proof (cases "process_line i l st")
    case (Inl e)
    then show ?thesis by simp
  next
    case (Inr st')
    have "length (snd (writeCSV_loop (i + 1) ls st'))
          \<le> length (snd st') + ((i + 1) mod 13 + length ls) div 13"
      by (rule Cons.IH)
    moreover have "length (snd st') = length (snd st) + (if i mod 13 = 12 then 1 else 0)"
      using Inr by (rule process_line_length)
    moreover have "(if i mod 13 = 12 then 1 else 0) + ((i + 1) mod 13 + length ls) div 13
                   = (i mod 13 + length (l # ls)) div 13"
      by (simp add: mod_Suc)
    ultimately show ?thesis using Inr by simp
  qed
qed

lemma loop_failing_line:
  assumes "k < length ls" and "\<And>st. \<exists>e. process_line (i + k) (ls ! k) st = Inl e"
  shows "(\<exists>e. fst (writeCSV_loop i ls st) = Some e)
         \<and> length (snd (writeCSV_loop i ls st)) \<le> length (snd st) + (i mod 13 + k) div 13"
  using assms
proof (induction ls arbitrary: i k st)
  case Nil
  then show ?case by simp
next
  case (Cons l ls)
  show ?case
  proof (cases "process_line i l st")
    case (Inl e)
    then show ?thesis by simp
  next
    case (Inr st')
    with Cons.prems(2) [of st] have "k \<noteq> 0" by (cases k) auto
    then obtain k' where k: "k = Suc k'" by (cases k) auto
    with Cons.prems have k': "k' < length ls" by simp
    have fail: "\<exists>e. process_line (i + 1 + k') (ls ! k') s = Inl e" for s
      using Cons.prems(2) [of s] k by simp
    have ih: "(\<exists>e. fst (writeCSV_loop (i + 1) ls st') = Some e)
         \<and> length (snd (writeCSV_loop (i + 1) ls st')) \<le> length (snd st') + ((i + 1) mod 13 + k') div 13"
      using k' fail by (rule Cons.IH)
    have "length (snd st') = length (snd st) + (if i mod 13 = 12 then 1 else 0)"
      using Inr by (rule process_line_length)
    moreover have "(if i mod 13 = 12 then 1 else 0) + ((i + 1) mod 13 + k') div 13
                   = (i mod 13 + k) div 13"
      by (simp add: mod_Suc k)
    ultimately show ?thesis using Inr ih by simp
  qed
qed

lemma list13:
  assumes "length b = 13"
  obtains l0 l1 l2 l3 l4 l5 l6 l7 l8 l9 l10 l11 l12
  where "b = [l0, l1, l2, l3, l4, l5, l6, l7, l8, l9, l10, l11, l12]"
proof -
  from assms have "\<exists>l0 l1 l2 l3 l4 l5 l6 l7 l8 l9 l10 l11 l12.
      b = [l0, l1, l2, l3, l4, l5, l6, l7, l8, l9, l10, l11, l12]"
    by (simp add: numeral_eq_Suc length_Suc_conv) blast
  then show ?thesis using that by blast
qed

lemma loop_step_idle:
  "process_line j l st = Inr st \<Longrightarrow> j + 1 = j' \<Longrightarrow> writeCSV_loop j (l # ls) st = writeCSV_loop j' ls st"
  by auto

lemma loop_step:
  "j + 1 = j' \<Longrightarrow> writeCSV_loop j (l # ls) st =
     (case process_line j l st of Inl e \<Rightarrow> (Some e, snd st) | Inr st' \<Rightarrow> writeCSV_loop j' ls st')"
  by (auto split: sum.split)

lemma loop_block:
  assumes "length b = 13" and "i mod 13 = 0"
  shows "writeCSV_loop i (b @ rest) (row, out) =
     (case block_state b row of
        Inl e \<Rightarrow> (Some e, out)
      | Inr r \<Rightarrow>
          if list_all (\<lambda>c. c \<noteq> None) r
          then writeCSV_loop (i + 13) rest (empty_row, out @ [map the r])
          else (Some TypeError, out))"
proof -
  from assms(1) obtain l0 l1 l2 l3 l4 l5 l6 l7 l8 l9 l10 l11 l12
    where b: "b = [l0, l1, l2, l3, l4, l5, l6, l7, l8, l9, l10, l11, l12]"
    by (rule list13)
  have m: "(i + k) mod 13 = k mod 13" for k
    using assms(2) mod_add_left_eq [of i 13 k] by simp
  have idle: "process_line (i + k) l st = Inr st" if "k mod 13 \<notin> {4, 7, 9, 11, 12}" for k l st
    using that by (simp add: process_line_idle m)
  have i0: "process_line i l st = Inr st" for l st
    using idle [of 0 l st] by simp
  have p4: "process_line (i + 4) l st = bind (at_offset_4 l (fst st)) (\<lambda>r. Inr (r, snd st))" for l st
    by (rule process_line_4) (simp add: m)
  have p7: "process_line (i + 7) l st = bind (at_offset_7 l (fst st)) (\<lambda>r. Inr (r, snd st))" for l st
    by (rule process_line_7) (simp add: m)
  have p9: "process_line (i + 9) l st = bind (at_offset_9 l (fst st)) (\<lambda>r. Inr (r, snd st))" for l st
    by (rule process_line_9) (simp add: m)
  have p11: "process_line (i + 11) l st = bind (at_offset_11 l (fst st)) (\<lambda>r. Inr (r, snd st))" for l st
    by (rule process_line_11) (simp add: m)
  have p12: "process_line (i + 12) l st = at_offset_12 st" for l st
    by (rule process_line_12) (simp add: m)
  have s0: "writeCSV_loop i (l # ls) st = writeCSV_loop (i + 1) ls st" for l ls st
    by (rule loop_step_idle [OF i0]) simp
  have s1: "writeCSV_loop (i + 1) (l # ls) st = writeCSV_loop (i + 2) ls st" for l ls st
    by (rule loop_step_idle [OF idle]) simp_all
  have s2: "writeCSV_loop (i + 2) (l # ls) st = writeCSV_loop (i + 3) ls st" for l ls st
    by (rule loop_step_idle [OF idle]) simp_all
  have s3: "writeCSV_loop (i + 3) (l # ls) st = writeCSV_loop (i + 4) ls st" for l ls st
    by (rule loop_step_idle [OF idle]) simp_all
  have s4: "writeCSV_loop (i + 4) (l # ls) (r, out) =
      (case at_offset_4 l r of Inl e \<Rightarrow> (Some e, out) | Inr r' \<Rightarrow> writeCSV_loop (i + 5) ls (r', out))"
    for l ls r
    by (subst loop_step [where j' = "i + 5"]) (simp_all add: p4 bind_def split: sum.split)
  have s5: "writeCSV_loop (i + 5) (l # ls) st = writeCSV_loop (i + 6) ls st" for l ls st
    by (rule loop_step_idle [OF idle]) simp_all
  have s6: "writeCSV_loop (i + 6) (l # ls) st = writeCSV_loop (i + 7) ls st" for l ls st
    by (rule loop_step_idle [OF idle]) simp_all
  have s7: "writeCSV_loop (i + 7) (l # ls) (r, out) =
      (case at_offset_7 l r of Inl e \<Rightarrow> (Some e, out) | Inr r' \<Rightarrow> writeCSV_loop (i + 8) ls (r', out))"
    for l ls r
    by (subst loop_step [where j' = "i + 8"]) (simp_all add: p7 bind_def split: sum.split)
  have s8: "writeCSV_loop (i + 8) (l # ls) st = writeCSV_loop (i + 9) ls st" for l ls st
    by (rule loop_step_idle [OF idle]) simp_all
  have s9: "writeCSV_loop (i + 9) (l # ls) (r, out) =
      (case at_offset_9 l r of Inl e \<Rightarrow> (Some e, out) | Inr r' \<Rightarrow> writeCSV_loop (i + 10) ls (r', out))"
    for l ls r
    by (subst loop_step [where j' = "i + 10"]) (simp_all add: p9 bind_def split: sum.split)
  have s10: "writeCSV_loop (i + 10) (l # ls) st = writeCSV_loop (i + 11) ls st" for l ls st
    by (rule loop_step_idle [OF idle]) simp_all
  have s11: "writeCSV_loop (i + 11) (l # ls) (r, out) =
      (case at_offset_11 l r of Inl e \<Rightarrow> (Some e, out) | Inr r' \<Rightarrow> writeCSV_loop (i + 12) ls (r', out))"
    for l ls r
    by (subst loop_step [where j' = "i + 12"]) (simp_all add: p11 bind_def split: sum.split)
  have s12: "writeCSV_loop (i + 12) (l # ls) (r, out) =
      (if list_all (\<lambda>c. c \<noteq> None) r then writeCSV_loop (i + 13) ls (empty_row, out @ [map the r])
       else (Some TypeError, out))"
    for l ls r
    by (subst loop_step [where j' = "i + 13"]) (simp_all add: p12 at_offset_12_def)
  have "writeCSV_loop i (b @ rest) (row, out) =
      (case at_offset_4 l4 row of Inl e \<Rightarrow> (Some e, out) | Inr r \<Rightarrow>
       (case at_offset_7 l7 r of Inl e \<Rightarrow> (Some e, out) | Inr r \<Rightarrow>
       (case at_offset_9 l9 r of Inl e \<Rightarrow> (Some e, out) | Inr r \<Rightarrow>
       (case at_offset_11 l11 r of Inl e \<Rightarrow> (Some e, out) | Inr r \<Rightarrow>
       (if list_all (\<lambda>c. c \<noteq> None) r then writeCSV_loop (i + 13) rest (empty_row, out @ [map the r])
        else (Some TypeError, out))))))"
    unfolding b append_Cons append_Nil s0 s1 s2 s3 s4 s5 s6 s7 s8 s9 s10 s11 s12 ..
  then show ?thesis
    by (simp add: b block_state_def bind_def split: sum.split)
qed

lemma loop_rows:
  assumes "i mod 13 = 0"
  shows "\<exists>rows. snd (writeCSV_loop i ls (empty_row, out)) = out @ rows
          \<and> (fst (writeCSV_loop i ls (empty_row, out)) = None \<longrightarrow> length rows = length ls div 13)
          \<and> (\<forall>j<length rows. 13 * j + 13 \<le> length ls
                \<and> block_row (take 13 (drop (13 * j) ls)) = Inr (rows ! j))"
  using assms
proof (induction "length ls" arbitrary: ls i out rule: less_induct)
  case less
  show ?case
  proof (cases "length ls < 13")
    case True
    then have "snd (writeCSV_loop i ls (empty_row, out)) = out"
      using loop_no_emit [of i ls "(empty_row, out)"] less.prems by simp
    with True show ?thesis by simp
  next
    case False
    define b where "b = take 13 ls"
    define rest where "rest = drop 13 ls"
    have ls: "ls = b @ rest" and lb: "length b = 13" and lr: "length rest < length ls"
      and lr': "length ls = 13 + length rest"
      using False by (simp_all add: b_def rest_def)
    have blk: "writeCSV_loop i ls (empty_row, out) =
      (case block_state b empty_row of
        Inl e \<Rightarrow> (Some e, out)
      | Inr r \<Rightarrow>
          if list_all (\<lambda>c. c \<noteq> None) r
          then writeCSV_loop (i + 13) rest (empty_row, out @ [map the r])
          else (Some TypeError, out))"
      unfolding ls using lb less.prems by (rule loop_block)
    show ?thesis
    proof (cases "block_state b empty_row")
      case (Inl e)
      with blk show ?thesis by simp
    next
      case (Inr r)
      show ?thesis
      proof (cases "list_all (\<lambda>c. c \<noteq> None) r")
        case False
        with blk Inr show ?thesis by simp
      next
        case True
        with blk Inr have eq: "writeCSV_loop i ls (empty_row, out)
            = writeCSV_loop (i + 13) rest (empty_row, out @ [map the r])"
          by simp
        have row: "block_row b = Inr (map the r)"
          using Inr True by (simp add: block_row_def)
        from less.prems have i13: "(i + 13) mod 13 = 0" by simp
        have "\<exists>rows. snd (writeCSV_loop (i + 13) rest (empty_row, out @ [map the r])) = (out @ [map the r]) @ rows
          \<and> (fst (writeCSV_loop (i + 13) rest (empty_row, out @ [map the r])) = None
                \<longrightarrow> length rows = length rest div 13)
          \<and> (\<forall>j<length rows. 13 * j + 13 \<le> length rest
                \<and> block_row (take 13 (drop (13 * j) rest)) = Inr (rows ! j))"
          using lr i13 by (rule less.hyps)
        then obtain rows where rows:
          "snd (writeCSV_loop (i + 13) rest (empty_row, out @ [map the r])) = (out @ [map the r]) @ rows"
          "fst (writeCSV_loop (i + 13) rest (empty_row, out @ [map the r])) = None
             \<longrightarrow> length rows = length rest div 13"
          "\<forall>j<length rows. 13 * j + 13 \<le> length rest
                \<and> block_row (take 13 (drop (13 * j) rest)) = Inr (rows ! j)"
          by (elim exE conjE)
        have C: "\<forall>j<length (map the r # rows). 13 * j + 13 \<le> length ls
                \<and> block_row (take 13 (drop (13 * j) ls)) = Inr ((map the r # rows) ! j)"
        proof (intro allI impI)
          fix j
          assume j: "j < length (map the r # rows)"
          show "13 * j + 13 \<le> length ls
                \<and> block_row (take 13 (drop (13 * j) ls)) = Inr ((map the r # rows) ! j)"
          proof (cases j)
            case 0
            with row lr' show ?thesis by (simp add: b_def)
          next
            case (Suc j')
            with j have "j' < length rows" by simp
            with rows(3) have "13 * j' + 13 \<le> length rest"
              and "block_row (take 13 (drop (13 * j') rest)) = Inr (rows ! j')"
              by auto
            moreover have "drop (13 * j') rest = drop (13 * j) ls"
              by (simp add: rest_def Suc add.commute)
            ultimately show ?thesis using Suc lr' by simp
          qed
        qed
        have d: "length ls div 13 = Suc (length rest div 13)"
          unfolding lr' by simp
        have B: "fst (writeCSV_loop i ls (empty_row, out)) = None
                  \<longrightarrow> length (map the r # rows) = length ls div 13"
          unfolding eq d using rows(2) by simp
        have A: "snd (writeCSV_loop i ls (empty_row, out)) = out @ (map the r # rows)"
          unfolding eq rows(1) by simp
        from A B C show ?thesis
          by (intro exI [where x = "map the r # rows"] conjI)
      qed
    qed
  qed
qed

lemma table_rows:
  "\<exists>rows. snd (writeCSV_table ls) = map Str header # rows
          \<and> (fst (writeCSV_table ls) = None \<longrightarrow> length rows = length ls div 13)
          \<and> (\<forall>j<length rows. 13 * j + 13 \<le> length ls
                \<and> block_row (take 13 (drop (13 * j) ls)) = Inr (rows ! j))"
  using loop_rows [of 0 ls "[map Str header]"] by (simp add: writeCSV_table_def)

subsection \<open>Tokens and fields\<close>

lemma split_aux_tokens:
  assumes "\<forall>c \<in> set cur. \<not> isspace c" and "t \<in> set (split_aux cur s)"
  shows "t \<noteq> [] \<and> (\<forall>c \<in> set t. \<not> isspace c)"
  using assms
proof (induction s arbitrary: cur)
  case Nil
  then show ?case by (auto split: if_splits)
next
  case (Cons c s)
  show ?case
  proof (cases "isspace c")
    case True
    with Cons.prems have "t = cur \<and> cur \<noteq> [] \<or> t \<in> set (split_aux [] s)"
      by (auto split: if_splits)
    then show ?thesis
    proof
      assume "t = cur \<and> cur \<noteq> []"
      with Cons.prems(1) show ?thesis by simp
    next
      assume "t \<in> set (split_aux [] s)"
      then show ?thesis using Cons.IH [of "[]"] by simp
    qed
  next
    case False
    with Cons.prems have "t \<in> set (split_aux (cur @ [c]) s)" by simp
    moreover from False Cons.prems(1) have "\<forall>x \<in> set (cur @ [c]). \<not> isspace x" by simp
    ultimately show ?thesis using Cons.IH [of "cur @ [c]"] by blast
  qed
qed

lemma split_ws_tokens: "t \<in> set (split_ws s) \<Longrightarrow> t \<noteq> [] \<and> (\<forall>c \<in> set t. \<not> isspace c)"
  using split_aux_tokens [of "[]" t s] by (simp add: split_ws_def)

lemma strip_no_space: "\<forall>c \<in> set t. \<not> isspace c \<Longrightarrow> strip t = t"
proof -
  assume a: "\<forall>c \<in> set t. \<not> isspace c"
  have d: "dropWhile isspace u = u" if "\<forall>c \<in> set u. \<not> isspace c" for u
    using that by (cases u) simp_all
  from a have "dropWhile isspace t = t" by (rule d)
  moreover from a have "dropWhile isspace (rev t) = rev t" by (intro d) simp
  ultimately show ?thesis by (simp add: strip_def)
qed

lemma py_nth_mem: "py_nth xs i = Inr x \<Longrightarrow> x \<in> set xs"
  by (auto simp: py_nth_def split: if_splits)

lemma token_strip: "py_nth (split_ws s) i = Inr t \<Longrightarrow> strip t = t \<and> t \<noteq> []"
  using split_ws_tokens [of t s] by (auto dest!: py_nth_mem intro: strip_no_space)

lemma py_nth_nat: "py_nth xs (int k) = (if k < length xs then Inr (xs ! k) else Inl IndexError)"
  by (simp add: py_nth_def)

lemma py_nth_last: "py_nth xs (- 1) = (if xs = [] then Inl IndexError else Inr (last xs))"
  by (cases xs rule: rev_cases) (simp_all add: py_nth_def nth_append)

lemma at_offset_4_length: "at_offset_4 line row = Inr r \<Longrightarrow> length r = length row"
  by (auto simp: at_offset_4_def bind_eq_Inr Let_def)

lemma at_offset_7_length: "at_offset_7 line row = Inr r \<Longrightarrow> length r = length row"
  by (auto simp: at_offset_7_def bind_eq_Inr Let_def)

lemma at_offset_9_length: "at_offset_9 line row = Inr r \<Longrightarrow> length r = length row"
  by (auto simp: at_offset_9_def bind_eq_Inr Let_def)

lemma at_offset_11_fields:
  assumes "at_offset_11 line row = Inr r" and "length row = 14"
  shows "\<exists>t8 t9 n8 n9 t11 t12 x.
           py_nth (split_ws line) 0 = Inr t8 \<and> py_nth (split_ws line) 2 = Inr t9
         \<and> py_nth (split_ws line) 5 = Inr t11 \<and> py_nth (split_ws line) 4 = Inr t12
         \<and> py_int t8 = Inr n8 \<and> py_int t9 = Inr n9
         \<and> py_float (py_slice t12 (Some 1) (Some (- 3))) = Inr x
         \<and> length r = 14
         \<and> r ! 8 = Some (Str t8) \<and> r ! 9 = Some (Str t9)
         \<and> r ! 10 = Some (Str (str_int (n8 - n9)))
         \<and> r ! 11 = Some (Str t11)
         \<and> r ! 12 = Some (Flt (fdiv100 x))"
proof -
  from assms(1) obtain t8 t9 s8 n8 s9 n9 t11 t12 x q t cig where
    t8: "py_nth (split_ws line) 0 = Inr t8" and t9: "py_nth (split_ws line) 2 = Inr t9"
    and s8: "str_field (row[8 := Some (Str (strip t8)), 9 := Some (Str (strip t9))]) 8 = Inr s8"
    and n8: "py_int s8 = Inr n8"
    and s9: "str_field (row[8 := Some (Str (strip t8)), 9 := Some (Str (strip t9))]) 9 = Inr s9"
    and n9: "py_int s9 = Inr n9"
    and t11: "py_nth (split_ws line) 5 = Inr t11" and t12: "py_nth (split_ws line) 4 = Inr t12"
    and x: "py_float (py_slice t12 (Some 1) (Some (- 3))) = Inr x"
    and r: "r = row[8 := Some (Str (strip t8)), 9 := Some (Str (strip t9)),
                    10 := Some (Str (str_int (n8 - n9))), 11 := Some (Str (strip t11)),
                    12 := Some (Flt (fdiv100 x)), 13 := Some (Str cig)]"
    unfolding at_offset_11_def Let_def bind_eq_Inr by blast
  have st: "strip t8 = t8" "strip t9 = t9" "strip t11 = t11"
    using t8 t9 t11 by (simp_all add: token_strip)
  from s8 s9 assms(2) have "s8 = t8" "s9 = t9"
    by (simp_all add: str_field_def st)
  with t8 t9 t11 t12 n8 n9 x r assms(2) show ?thesis
    by (simp add: st)
qed

lemma block_state_fields:
  assumes "block_state b empty_row = Inr r"
  shows "\<exists>t8 t9 n8 n9 t11 t12 x.
           py_nth (split_ws (b ! 11)) 0 = Inr t8 \<and> py_nth (split_ws (b ! 11)) 2 = Inr t9
         \<and> py_nth (split_ws (b ! 11)) 5 = Inr t11 \<and> py_nth (split_ws (b ! 11)) 4 = Inr t12
         \<and> py_int t8 = Inr n8 \<and> py_int t9 = Inr n9
         \<and> py_float (py_slice t12 (Some 1) (Some (- 3))) = Inr x
         \<and> length r = 14
         \<and> r ! 8 = Some (Str t8) \<and> r ! 9 = Some (Str t9)
         \<and> r ! 10 = Some (Str (str_int (n8 - n9)))
         \<and> r ! 11 = Some (Str t11)
         \<and> r ! 12 = Some (Flt (fdiv100 x))"
proof -
  from assms obtain r1 r2 r3 where
    "at_offset_4 (b ! 4) empty_row = Inr r1" "at_offset_7 (b ! 7) r1 = Inr r2"
    "at_offset_9 (b ! 9) r2 = Inr r3" and r: "at_offset_11 (b ! 11) r3 = Inr r"
    unfolding block_state_def bind_eq_Inr by blast
  then have "length r3 = 14"
    by (simp add: at_offset_4_length at_offset_7_length at_offset_9_length empty_row_def)
  with r show ?thesis by (rule at_offset_11_fields)
qed

lemma block_row_fields:
  assumes "block_row b = Inr cells"
  shows "\<exists>t8 t9 n8 n9 t11 t12 x.
           py_nth (split_ws (b ! 11)) 0 = Inr t8 \<and> py_nth (split_ws (b ! 11)) 2 = Inr t9
         \<and> py_nth (split_ws (b ! 11)) 5 = Inr t11 \<and> py_nth (split_ws (b ! 11)) 4 = Inr t12
         \<and> py_int t8 = Inr n8 \<and> py_int t9 = Inr n9
         \<and> py_float (py_slice t12 (Some 1) (Some (- 3))) = Inr x
         \<and> length cells = 14
         \<and> cells ! 8 = Str t8 \<and> cells ! 9 = Str t9
         \<and> cells ! 10 = Str (str_int (n8 - n9))
         \<and> cells ! 11 = Str t11
         \<and> cells ! 12 = Flt (fdiv100 x)"
proof -
  from assms obtain r where r: "block_state b empty_row = Inr r" and cells: "cells = map the r"
    unfolding block_row_def bind_eq_Inr by (auto split: if_splits)
  from block_state_fields [OF r] obtain t8 t9 n8 n9 t11 t12 x where f:
    "py_nth (split_ws (b ! 11)) 0 = Inr t8" "py_nth (split_ws (b ! 11)) 2 = Inr t9"
    "py_nth (split_ws (b ! 11)) 5 = Inr t11" "py_nth (split_ws (b ! 11)) 4 = Inr t12"
    "py_int t8 = Inr n8" "py_int t9 = Inr n9"
    "py_float (py_slice t12 (Some 1) (Some (- 3))) = Inr x"
    "length r = 14"
    "r ! 8 = Some (Str t8)" "r ! 9 = Some (Str t9)"
    "r ! 10 = Some (Str (str_int (n8 - n9)))"
    "r ! 11 = Some (Str t11)"
    "r ! 12 = Some (Flt (fdiv100 x))"
    by blast
  have "cells ! k = the (r ! k)" if "k < 14" for k
    using that f(8) by (simp add: cells)
  from this [of 8] this [of 9] this [of 10] this [of 11] this [of 12] f cells show ?thesis
    by simp
qed

lemma is_digit_not_space: "is_digit c \<Longrightarrow> \<not> isspace c"
  by (auto simp: is_digit_def isspace_def)

lemma is_digit_not_sign: "is_digit c \<Longrightarrow> c \<noteq> CHR ''-'' \<and> c \<noteq> CHR ''+''"
  by (auto simp: is_digit_def)

lemma idec_int: "idec (int a) ds = int (dec a ds)"
proof (induction ds arbitrary: a)
  case Nil
  then show ?case by (simp add: idec_def dec_def)
next
  case (Cons d ds)
  have "idec (int a) (d # ds) = idec (int (10 * a + digit_val d)) ds"
    by (simp add: idec_def)
  also have "\<dots> = int (dec (10 * a + digit_val d) ds)" by (rule Cons.IH)
  finally show ?case by (simp add: dec_def)
qed

lemma digit_run_digits:
  assumes "\<forall>c \<in> set ds. is_digit c" and "ds \<noteq> []"
  shows "digit_run acc cnt after ds = Some (idec acc ds, cnt + length ds)"
  using assms
proof (induction ds arbitrary: acc cnt after)
  case Nil
  then show ?case by simp
next
  case (Cons d ds)
  show ?case
  proof (cases "ds = []")
    case True
    with Cons.prems show ?thesis by (simp add: idec_def)
  next
    case False
    with Cons show ?thesis by (simp add: idec_def)
  qed
qed

lemma digit_run_str_nat: "digit_run 0 0 False (str_nat n) = Some (int n, length (str_nat n))"
  using digit_run_digits [where ds = "str_nat n" and acc = 0 and cnt = 0 and after = False]
    str_nat_digits [of n] str_nat_nonempty [of n] idec_int [of 0 "str_nat n"]
  by (simp add: dec_str_nat)

lemma py_int_str_nat: "py_int (str_nat n) = Inr (int n)"
proof -
  have dg: "\<forall>c \<in> set (str_nat n). is_digit c" by (rule str_nat_digits)
  then have "strip (str_nat n) = str_nat n"
    by (intro strip_no_space) (simp add: is_digit_not_space)
  moreover obtain d ds where d: "str_nat n = d # ds"
    using str_nat_nonempty [of n] by (cases "str_nat n") auto
  with dg have "is_digit d" by simp
  then have "take_sign (str_nat n) = (False, str_nat n)"
    using d by (auto simp: take_sign_def dest: is_digit_not_sign)
  ultimately show ?thesis by (simp add: py_int_def digit_run_str_nat)
qed

lemma py_int_str_int: "py_int (str_int z) = Inr z"
proof (cases "z < 0")
  case False
  then show ?thesis by (simp add: str_int_def py_int_str_nat)
next
  case True
  let ?n = "nat (- z)"
  have dg: "\<forall>c \<in> set (str_nat ?n). is_digit c" by (rule str_nat_digits)
  have "\<forall>c \<in> set (CHR ''-'' # str_nat ?n). \<not> isspace c"
    using dg by (auto simp: is_digit_not_space) (simp add: isspace_def)
  then have "strip (CHR ''-'' # str_nat ?n) = CHR ''-'' # str_nat ?n"
    by (rule strip_no_space)
  moreover have "take_sign (CHR ''-'' # str_nat ?n) = (True, str_nat ?n)"
    by (simp add: take_sign_def)
  ultimately show ?thesis using True by (simp add: py_int_def str_int_def digit_run_str_nat)
qed

lemma py_slice_1_m3: "py_slice tok (Some 1) (Some (- 3)) = drop 1 (take (length tok - 3) tok)"
proof (cases "length tok < 3")
  case True
  then show ?thesis by (simp add: py_slice_def Let_def)
next
  case False
  then have "nat (int (length tok) - 3 - 1) = length tok - 3 - 1" by simp
  with False show ?thesis
    by (simp add: py_slice_def Let_def drop_take min_def max_def)
qed

lemma filled_row:
  assumes "length row = 14"
  shows "list_all (\<lambda>c. c \<noteq> None)
     (row[0 := Some a0, 1 := Some a1, 2 := Some a2, 3 := Some a3, 6 := Some a6,
          4 := Some a4, 5 := Some a5, 7 := Some a7, 8 := Some a8, 9 := Some a9,
          10 := Some a10, 11 := Some a11, 12 := Some a12, 13 := Some a13])"
proof -
  have "k = 0 \<or> k = 1 \<or> k = 2 \<or> k = 3 \<or> k = 4 \<or> k = 5 \<or> k = 6 \<or> k = 7
        \<or> k = 8 \<or> k = 9 \<or> k = 10 \<or> k = 11 \<or> k = 12 \<or> k = 13" if "k < 14" for k :: nat
    using that by arith
  then show ?thesis
    using assms unfolding list_all_length by (fastforce simp: nth_list_update)
qed

lemma at_offset_4_form:
  "at_offset_4 line row = Inr r \<Longrightarrow> \<exists>a0 a1. r = row[0 := Some a0, 1 := Some a1]"
  by (auto simp: at_offset_4_def bind_eq_Inr Let_def)

lemma at_offset_7_form:
  "at_offset_7 line row = Inr r \<Longrightarrow> \<exists>a2 a3 a6. r = row[2 := Some a2, 3 := Some a3, 6 := Some a6]"
  by (auto simp: at_offset_7_def bind_eq_Inr Let_def)

lemma at_offset_9_form:
  "at_offset_9 line row = Inr r \<Longrightarrow> \<exists>a4 a5 a7. r = row[4 := Some a4, 5 := Some a5, 7 := Some a7]"
  by (auto simp: at_offset_9_def bind_eq_Inr Let_def)

lemma at_offset_11_form:
  "at_offset_11 line row = Inr r \<Longrightarrow>
     \<exists>a8 a9 a10 a11 a12 a13. r = row[8 := Some a8, 9 := Some a9, 10 := Some a10,
                                     11 := Some a11, 12 := Some a12, 13 := Some a13]"
  unfolding at_offset_11_def Let_def bind_eq_Inr by blast

lemma block_state_filled:
  assumes "block_state b empty_row = Inr r"
  shows "list_all (\<lambda>c. c \<noteq> None) r"
proof -
  from assms obtain r1 r2 r3 where
    r1: "at_offset_4 (b ! 4) empty_row = Inr r1" and r2: "at_offset_7 (b ! 7) r1 = Inr r2"
    and r3: "at_offset_9 (b ! 9) r2 = Inr r3" and r: "at_offset_11 (b ! 11) r3 = Inr r"
    unfolding block_state_def bind_eq_Inr by blast
  have e: "length empty_row = 14" by (simp add: empty_row_def)
  from at_offset_4_form [OF r1] obtain a0 a1
    where f1: "r1 = empty_row[0 := Some a0, 1 := Some a1]" by blast
  from at_offset_7_form [OF r2] obtain a2 a3 a6
    where f2: "r2 = r1[2 := Some a2, 3 := Some a3, 6 := Some a6]" by blast
  from at_offset_9_form [OF r3] obtain a4 a5 a7
    where f3: "r3 = r2[4 := Some a4, 5 := Some a5, 7 := Some a7]" by blast
  from at_offset_11_form [OF r] obtain a8 a9 a10 a11 a12 a13
    where f4: "r = r3[8 := Some a8, 9 := Some a9, 10 := Some a10,
                      11 := Some a11, 12 := Some a12, 13 := Some a13]" by blast
  show ?thesis unfolding f4 f3 f2 f1 using e by (rule filled_row)
qed

lemma block_row_eq:
  "block_row b = bind (block_state b empty_row) (\<lambda>r. Inr (map the r))"
proof (cases "block_state b empty_row")
  case (Inl e)
  then show ?thesis by (simp add: block_row_def)
next
  case (Inr r)
  with block_state_filled [OF this] show ?thesis by (simp add: block_row_def)
qed

lemma py_nth_ok: "k < length xs \<Longrightarrow> py_nth xs (int k) = Inr (xs ! k)"
  by (simp add: py_nth_nat)

lemma wf_block_state:
  assumes "wf_block b"
  shows "\<exists>r. block_state b empty_row = Inr r"
proof -
  define l4 where "l4 = split_ws (strip (b ! 4))"
  define l7 where "l7 = split_ws (strip (b ! 7))"
  define l9 where "l9 = split_ws (strip (b ! 9))"
  define l11 where "l11 = split_ws (b ! 11)"
  from assms have len: "3 \<le> length l4" "4 \<le> length l7" "4 \<le> length l9" "6 \<le> length l11"
    and plus: "CHR ''+'' \<in> set (b ! 7)"
    and num: "\<not> isl (py_int (l11 ! 0))" "\<not> isl (py_int (l11 ! 2))"
      "\<not> isl (py_float (py_slice (l11 ! 4) (Some 1) (Some (- 3))))"
    and same: "length (l7 ! 3) = length (l9 ! 3)"
    by (simp_all add: wf_block_def Let_def l4_def l7_def l9_def l11_def)
  have n4: "py_nth l4 2 = Inr (l4 ! 2)"
    using py_nth_ok [of 2 l4] len by simp
  have n7: "py_nth l7 1 = Inr (l7 ! 1)" "py_nth l7 3 = Inr (l7 ! 3)" "py_nth l7 (- 1) = Inr (last l7)"
    using py_nth_ok [of 1 l7] py_nth_ok [of 3 l7] len by (auto simp: py_nth_last)
  have n9: "py_nth l9 1 = Inr (l9 ! 1)" "py_nth l9 3 = Inr (l9 ! 3)" "py_nth l9 (- 1) = Inr (last l9)"
    using py_nth_ok [of 1 l9] py_nth_ok [of 3 l9] len by (auto simp: py_nth_last)
  have ne11: "l11 \<noteq> []" using len by auto
  have n11: "py_nth l11 0 = Inr (l11 ! 0)" "py_nth l11 2 = Inr (l11 ! 2)"
    "py_nth l11 4 = Inr (l11 ! 4)" "py_nth l11 5 = Inr (l11 ! 5)"
    using py_nth_ok [of 0 l11] py_nth_ok [of 2 l11] py_nth_ok [of 4 l11] py_nth_ok [of 5 l11] len ne11
    by auto
  define q where "q = l7 ! 3"
  define t where "t = l9 ! 3"
  have tok: "strip q = q" "q \<noteq> []" "strip t = t" "strip (l11 ! 0) = l11 ! 0" "strip (l11 ! 2) = l11 ! 2"
    using token_strip [of "strip (b ! 7)" 3 q] token_strip [of "strip (b ! 9)" 3 t]
      token_strip [of "b ! 11" 0 "l11 ! 0"] token_strip [of "b ! 11" 2 "l11 ! 2"] n7 n9 n11
    by (simp_all add: q_def t_def l7_def l9_def l11_def)
  from num obtain n8 n9' x where vals: "py_int (l11 ! 0) = Inr n8" "py_int (l11 ! 2) = Inr n9'"
    "py_float (py_slice (l11 ! 4) (Some 1) (Some (- 3))) = Inr x"
    by (metis sum.collapse(2))
  from same tok obtain cig where cig: "cigarString q t = Inr cig"
    using cigarString_succeeds [of q t] by (auto simp: q_def t_def)
  have e: "length empty_row = 14" by (simp add: empty_row_def)
  have "at_offset_4 (b ! 4) empty_row
        = Inr (empty_row[0 := Some (Str (strip (py_slice (l4 ! 2) (Some 1) None))),
                         1 := Some (Str (strip (py_slice (l4 ! 2) (Some 1) None)))])"
    using n4 by (simp add: at_offset_4_def l4_def [symmetric])
  moreover have "at_offset_7 (b ! 7) r = Inr (r[2 := Some (Str (strip (l7 ! 1))),
      3 := Some (Str (strip (last l7))), 6 := Some (Str q)])" for r
    using n7 plus tok by (simp add: at_offset_7_def l7_def [symmetric] str_index_def q_def)
  moreover have "at_offset_9 (b ! 9) r = Inr (r[4 := Some (Str (strip (l9 ! 1))),
      5 := Some (Str (strip (last l9))), 7 := Some (Str t)])" for r
    using n9 tok by (simp add: at_offset_9_def l9_def [symmetric] t_def)
  moreover have "\<exists>r'. at_offset_11 (b ! 11) r = Inr r'"
    if "length r = 14" "r ! 6 = Some (Str q)" "r ! 7 = Some (Str t)" for r
    using n11 tok vals cig that
    by (simp add: at_offset_11_def l11_def [symmetric] str_field_def)
  ultimately show ?thesis
    using e by (simp add: block_state_def)
qed

lemma wf_block_row: "wf_block b \<Longrightarrow> \<exists>cells. block_row b = Inr cells"
  using wf_block_state [of b] by (auto simp: block_row_eq)

lemma wf_loop:
  assumes "i mod 13 = 0" and "length ls mod 13 = 0" and "list_all wf_block (blocks ls)"
  shows "fst (writeCSV_loop i ls (empty_row, out)) = None"
  using assms
proof (induction "length ls" arbitrary: ls i out rule: less_induct)
  case less
  show ?case
  proof (cases "ls = []")
    case True
    then show ?thesis by simp
  next
    case False
    with less.prems(2) have ge: "\<not> length ls < 13" by auto
    define b where "b = take 13 ls"
    define rest where "rest = drop 13 ls"
    have ls: "ls = b @ rest" and lb: "length b = 13" and lr: "length rest < length ls"
      using ge by (simp_all add: b_def rest_def)
    from ge less.prems(3) have wb: "wf_block b" and wr: "list_all wf_block (blocks rest)"
      by (simp_all add: blocks.simps [of ls] b_def rest_def)
    from wb obtain r where r: "block_state b empty_row = Inr r"
      using wf_block_state by blast
    have "writeCSV_loop i (b @ rest) (empty_row, out)
          = writeCSV_loop (i + 13) rest (empty_row, out @ [map the r])"
      using loop_block [OF lb less.prems(1), of rest empty_row out] r block_state_filled [OF r]
      by simp
    moreover have "(i + 13) mod 13 = 0" using less.prems(1) by simp
    moreover have "length rest mod 13 = 0"
      using less.prems(2) ge by (simp add: rest_def mod_diff_right_eq [symmetric] le_mod_geq)
    ultimately show ?thesis
      using less.hyps [OF lr _ _ wr, of "i + 13" "out @ [map the r]"] ls by simp
  qed
qed

lemma py_nth_Inr_nat: "py_nth xs (int k) = Inr x \<Longrightarrow> k < length xs"
  by (simp add: py_nth_nat split: if_splits)

lemma at_offset_4_tokens: "at_offset_4 line row = Inr r \<Longrightarrow> 3 \<le> length (split_ws (strip line))"
  using py_nth_Inr_nat [of "split_ws (strip line)" 2]
  by (auto simp: at_offset_4_def bind_eq_Inr)

lemma at_offset_7_tokens: "at_offset_7 line row = Inr r \<Longrightarrow> 4 \<le> length (split_ws (strip line))"
  using py_nth_Inr_nat [of "split_ws (strip line)" 3]
  by (auto simp: at_offset_7_def bind_eq_Inr Let_def)

lemma at_offset_9_tokens: "at_offset_9 line row = Inr r \<Longrightarrow> 4 \<le> length (split_ws (strip line))"
  using py_nth_Inr_nat [of "split_ws (strip line)" 3]
  by (auto simp: at_offset_9_def bind_eq_Inr Let_def)

lemma at_offset_11_tokens:
  assumes "at_offset_11 line row = Inr r"
  shows "6 \<le> length (split_ws line)"
proof -
  from assms obtain t11 where "py_nth (split_ws line) 5 = Inr t11"
    unfolding at_offset_11_def Let_def bind_eq_Inr by blast
  then show ?thesis using py_nth_Inr_nat [of "split_ws line" 5] by simp
qed

lemma lacks_token_fails:
  assumes "lacks_token i line"
  shows "\<exists>e. process_line i line st = Inl e"
proof (cases "process_line i line st")
  case (Inl e)
  then show ?thesis by simp
next
  case (Inr st')
  from assms have "i mod 13 = 4 \<or> i mod 13 = 7 \<or> i mod 13 = 9 \<or> i mod 13 = 11"
    by (auto simp: lacks_token_def required_tokens_def split: if_splits)
  then have False
  proof (elim disjE)
    assume i: "i mod 13 = 4"
    with Inr obtain r where "at_offset_4 line (fst st) = Inr r"
      by (auto simp: process_line_4 bind_eq_Inr)
    with assms i show False
      by (auto simp: lacks_token_def required_tokens_def tokens_at_def dest: at_offset_4_tokens)
  next
    assume i: "i mod 13 = 7"
    with Inr obtain r where "at_offset_7 line (fst st) = Inr r"
      by (auto simp: process_line_7 bind_eq_Inr)
    with assms i show False
      by (auto simp: lacks_token_def required_tokens_def tokens_at_def dest: at_offset_7_tokens)
  next
    assume i: "i mod 13 = 9"
    with Inr obtain r where "at_offset_9 line (fst st) = Inr r"
      by (auto simp: process_line_9 bind_eq_Inr)
    with assms i show False
      by (auto simp: lacks_token_def required_tokens_def tokens_at_def dest: at_offset_9_tokens)
  next
    assume i: "i mod 13 = 11"
    with Inr obtain r where "at_offset_11 line (fst st) = Inr r"
      by (auto simp: process_line_11 bind_eq_Inr)
    with assms i show False
      by (auto simp: lacks_token_def required_tokens_def tokens_at_def dest: at_offset_11_tokens)
  qed
  then show ?thesis ..
qed

lemma table_missing_token:
  assumes "i < length lines" and "lacks_token i (lines ! i)"
  shows "(\<exists>e. fst (writeCSV_table lines) = Some e)
         \<and> length (snd (writeCSV_table lines)) \<le> 1 + i div 13"
  using loop_failing_line [of i lines 0 "(empty_row, [map Str header])"] assms lacks_token_fails
  by (simp add: writeCSV_table_def)

lemma table_partial_rows:
  assumes "length body mod 13 = 0" and "length tail < 13"
  shows "snd (writeCSV_table (body @ tail)) = snd (writeCSV_table body)"
proof (cases "run_lines 0 body (empty_row, [map Str header])")
  case (Inl e)
  then show ?thesis by (simp add: writeCSV_table_def loop_append)
next
  case (Inr s)
  have "snd (writeCSV_loop (length body) tail s) = snd s"
    using assms by (intro loop_no_emit) simp
  with Inr show ?thesis
    by (simp add: writeCSV_table_def loop_append loop_run_Inr)
qed

lemma table_partial_idle:
  assumes "length body mod 13 = 0" and "length tail \<le> 4"
  shows "writeCSV_table (body @ tail) = writeCSV_table body"
proof (cases "run_lines 0 body (empty_row, [map Str header])")
  case (Inl e)
  then show ?thesis by (simp add: writeCSV_table_def loop_append)
next
  case (Inr s)
  have "writeCSV_loop (length body) tail s = (None, snd s)"
    using assms by (intro loop_idle) simp
  with Inr show ?thesis
    by (simp add: writeCSV_table_def loop_append loop_run_Inr)
qed

lemma block_line_11: "13 * j + 13 \<le> length ls \<Longrightarrow> take 13 (drop (13 * j) ls) ! 11 = ls ! (13 * j + 11)"
  by simp

lemma emitted_row:
  assumes "snd (writeCSV_table lines) = hdr # rows" and "j < length rows"
  shows "13 * j + 13 \<le> length lines \<and> block_row (take 13 (drop (13 * j) lines)) = Inr (rows ! j)"
  using table_rows [of lines] assms by auto

subsection \<open>A sample block\<close>

lemma blocks_single: "length b = 13 \<Longrightarrow> blocks b = [b]"
  by (subst blocks.simps, simp, subst blocks.simps, simp)

lemma sample_table:
  "writeCSV_table (sample_block ''(95.00%),'') =
     (None, [map Str header,
             [Str ''query1'', Str ''query1'', Str ''1'', Str ''4'', Str ''1'', Str ''4'',
              Str ''AC-T'', Str ''ACGT'', Str ''4'', Str ''3'', Str ''1'', Str ''1'',
              Flt (Fin (4278419646001971 / 4503599627370496)), Str ''2=1D1='']])"
  by code_simp

lemma sample_wf_block: "wf_block (sample_block ''(95.00%),'')"
  by code_simp

lemma sample_wf: "list_all wf_block (blocks (sample_block ''(95.00%),''))"
proof -
  have "length (sample_block ''(95.00%),'') = 13" by (simp add: sample_block_def)
  then have "blocks (sample_block ''(95.00%),'') = [sample_block ''(95.00%),'']"
    by (rule blocks_single)
  with sample_wf_block show ?thesis by simp
qed

subsection \<open>The claims about the parser\<close>

text \<open>
  C2, as stated: the Identity field is the value of the fifth token of the summary line
  without its first character and its last two characters, divided by 100. The code
  slices the token with \<^verbatim>\<open>[1:-3]\<close>, three characters from the end. On the token
  \<open>(95.25%)\<close>, a sigil, the percentage and two closing characters, the code reads \<open>95.2\<close>
  and writes the float 0.9520000000000001, while the stated rule reads \<open>95.25\<close> and gives
  0.9525.
\<close>

theorem writeCSV_identity_counterexample:
  "snd (writeCSV_table
     [''Query >query1'',
      '' %Id   TLen  Target'',
      '' 95%    100  target1'',
      [],
      '' Query 4nt >query1'',
      ''Target 4nt >target1'',
      [],
      ''Qry 1 + AC-T 4'',
      ''        || |'',
      ''Tgt 1 + ACGT 4'',
      [],
      ''4 cols, 3 ids (95.25%) 1 gaps (25.0%)'',
      []]) ! 1 ! 12 = Flt (Fin (8574853690513425 / 9007199254740992))
   \<and> bind (py_float (py_slice ''(95.25%)'' (Some 1) (Some (- 2)))) (\<lambda>x. Inr (fdiv100 x))
       = Inr (Fin (8579357290140795 / 9007199254740992))
   \<and> py_float ''0.9520000000000001'' = Inr (Fin (8574853690513425 / 9007199254740992))
   \<and> py_float ''0.9525'' = Inr (Fin (8579357290140795 / 9007199254740992))
   \<and> Fin (8574853690513425 / 9007199254740992) \<noteq> Fin (8579357290140795 / 9007199254740992)"
  by code_simp

text \<open>
  C2, amended. For every row the parser writes, the Identity field is the float read
  from the fifth white-space token of the summary line of that row's block (line
  \<open>13 j + 11\<close>) after removing its first character and its last three characters,
  divided by 100 in binary64 arithmetic. The engine writes that token as \<open>(95.00%),\<close>
  and such a block yields the float 0.95, as the witness shows.
\<close>

theorem writeCSV_identity:
  assumes "snd (writeCSV_table lines) = hdr # rows" and "j < length rows"
  shows "\<exists>tok x. py_nth (split_ws (lines ! (13 * j + 11))) 4 = Inr tok
           \<and> py_float (drop 1 (take (length tok - 3) tok)) = Inr x
           \<and> rows ! j ! 12 = Flt (fdiv100 x)"
proof -
  from emitted_row [OF assms] have le: "13 * j + 13 \<le> length lines"
    and row: "block_row (take 13 (drop (13 * j) lines)) = Inr (rows ! j)" by simp_all
  from block_row_fields [OF row] le show ?thesis
    by (auto simp: py_slice_1_m3)
qed

theorem writeCSV_identity_witness:
  "\<exists>rows. snd (writeCSV_table (sample_block ''(95.00%),'')) = map Str header # rows
     \<and> 0 < length rows
     \<and> (\<exists>tok x. py_nth (split_ws (sample_block ''(95.00%),'' ! (13 * 0 + 11))) 4 = Inr tok
           \<and> py_float (drop 1 (take (length tok - 3) tok)) = Inr x
           \<and> rows ! 0 ! 12 = Flt (fdiv100 x))
     \<and> rows ! 0 ! 12 = Flt (Fin (4278419646001971 / 4503599627370496))
     \<and> py_float ''0.95'' = Inr (Fin (4278419646001971 / 4503599627370496))"
proof -
  define row where "row = [Str ''query1'', Str ''query1'', Str ''1'', Str ''4'', Str ''1'', Str ''4'',
              Str ''AC-T'', Str ''ACGT'', Str ''4'', Str ''3'', Str ''1'', Str ''1'',
              Flt (Fin (4278419646001971 / 4503599627370496)), Str ''2=1D1='']"
  have h1: "snd (writeCSV_table (sample_block ''(95.00%),'')) = map Str header # [row]"
    by (simp add: sample_table row_def)
  have h2: "0 < length [row]" by simp
  have h3: "[row] ! 0 ! 12 = Flt (Fin (4278419646001971 / 4503599627370496))" by (simp add: row_def)
  have h4: "py_float ''0.95'' = Inr (Fin (4278419646001971 / 4503599627370496))" by code_simp
  from h1 h2 writeCSV_identity [OF h1 h2] h3 h4 show ?thesis
    by (intro exI [where x = "[row]"] conjI)
qed

text \<open>
  C3. For a report of exactly \<open>13 k\<close> lines whose blocks are all well formed, the parser
  finishes without an exception and the table it wrote consists of the header row, which
  has 14 columns, followed by exactly \<open>k\<close> data rows.
\<close>

theorem writeCSV_row_count:
  assumes "length lines = 13 * k" and "list_all wf_block (blocks lines)"
  shows "\<exists>rows. writeCSV_table lines = (None, map Str header # rows) \<and> length rows = k
           \<and> length (map Str header) = 14"
proof -
  have ok: "fst (writeCSV_table lines) = None"
    using wf_loop [of 0 lines "[map Str header]"] assms by (simp add: writeCSV_table_def)
  from table_rows [of lines] obtain rows where
    rows: "snd (writeCSV_table lines) = map Str header # rows"
    and len: "fst (writeCSV_table lines) = None \<longrightarrow> length rows = length lines div 13"
    by (elim exE conjE)
  from len ok assms(1) have "length rows = k" by simp
  moreover from ok rows have "writeCSV_table lines = (None, map Str header # rows)"
    by (simp add: prod_eq_iff)
  moreover have "length (map Str header) = 14" by (simp add: header_def)
  ultimately show ?thesis by (intro exI [where x = rows] conjI)
qed

theorem writeCSV_row_count_witness:
  "length (sample_block ''(95.00%),'') = 13 * 1
   \<and> list_all wf_block (blocks (sample_block ''(95.00%),''))
   \<and> (\<exists>rows. writeCSV_table (sample_block ''(95.00%),'') = (None, map Str header # rows)
         \<and> length rows = 1 \<and> length (map Str header) = 14)"
proof -
  have h1: "length (sample_block ''(95.00%),'') = 13 * 1" by (simp add: sample_block_def)
  from h1 sample_wf writeCSV_row_count [OF h1 sample_wf] show ?thesis
    by (intro conjI)
qed

text \<open>
  C4. For every row the parser writes, NumColumns is the first token and NumMatches the
  third token of the summary line of that row's block, and NumMismatches is the decimal
  rendering of the difference of their integer values; read back as an integer it is
  NumColumns minus NumMatches. No other token of the report enters the field.
\<close>

theorem writeCSV_mismatches:
  assumes "snd (writeCSV_table lines) = hdr # rows" and "j < length rows"
  shows "\<exists>cols ids n m.
           py_nth (split_ws (lines ! (13 * j + 11))) 0 = Inr cols
         \<and> py_nth (split_ws (lines ! (13 * j + 11))) 2 = Inr ids
         \<and> py_int cols = Inr n \<and> py_int ids = Inr m
         \<and> rows ! j ! 8 = Str cols \<and> rows ! j ! 9 = Str ids
         \<and> rows ! j ! 10 = Str (str_int (n - m))
         \<and> py_int (str_int (n - m)) = Inr (n - m)"
proof -
  from emitted_row [OF assms] have le: "13 * j + 13 \<le> length lines"
    and row: "block_row (take 13 (drop (13 * j) lines)) = Inr (rows ! j)" by simp_all
  from block_row_fields [OF row] le show ?thesis
    by (auto simp: py_int_str_int)
qed

theorem writeCSV_mismatches_witness:
  "\<exists>rows. snd (writeCSV_table (sample_block ''(95.00%),'')) = map Str header # rows
     \<and> 0 < length rows
     \<and> (\<exists>cols ids n m.
           py_nth (split_ws (sample_block ''(95.00%),'' ! (13 * 0 + 11))) 0 = Inr cols
         \<and> py_nth (split_ws (sample_block ''(95.00%),'' ! (13 * 0 + 11))) 2 = Inr ids
         \<and> py_int cols = Inr n \<and> py_int ids = Inr m
         \<and> rows ! 0 ! 8 = Str cols \<and> rows ! 0 ! 9 = Str ids
         \<and> rows ! 0 ! 10 = Str (str_int (n - m))
         \<and> py_int (str_int (n - m)) = Inr (n - m))
     \<and> rows ! 0 ! 8 = Str ''4'' \<and> rows ! 0 ! 9 = Str ''3'' \<and> rows ! 0 ! 10 = Str ''1''"
proof -
  define row where "row = [Str ''query1'', Str ''query1'', Str ''1'', Str ''4'', Str ''1'', Str ''4'',
              Str ''AC-T'', Str ''ACGT'', Str ''4'', Str ''3'', Str ''1'', Str ''1'',
              Flt (Fin (4278419646001971 / 4503599627370496)), Str ''2=1D1='']"
  have h1: "snd (writeCSV_table (sample_block ''(95.00%),'')) = map Str header # [row]"
    by (simp add: sample_table row_def)
  have h2: "0 < length [row]" by simp
  have h3: "[row] ! 0 ! 8 = Str ''4''" "[row] ! 0 ! 9 = Str ''3''" "[row] ! 0 ! 10 = Str ''1''"
    by (simp_all add: row_def)
  from h1 h2 writeCSV_mismatches [OF h1 h2] h3 show ?thesis
    by (intro exI [where x = "[row]"] conjI)
qed

text \<open>
  C5, as stated: a report whose line count is not a multiple of 13 makes the parser
  signal an error, and a trailing partial block is never dropped silently. A report of
  five lines, the first five of a block, is parsed without any exception: only the header
  row is written and the partial block is dropped.
\<close>

theorem writeCSV_malformed_counterexample:
  "length [''Query >query1'', '' %Id   TLen  Target'', '' 95%    100  target1'', [],
           '' Query 4nt >query1''] mod 13 \<noteq> 0
   \<and> writeCSV_table
        [''Query >query1'', '' %Id   TLen  Target'', '' 95%    100  target1'', [],
         '' Query 4nt >query1'']
       = (None, [map Str header])"
  by code_simp

text \<open>
  C5, amended. When a line at offset 4, 7, 9 or 11 of a block has fewer tokens than the
  parser indexes there, the parser raises an exception and writes no row for that block
  or any later one. A line count that is not a multiple of 13 is not an error by itself:
  a trailing partial block never adds a row, and when it has at most four lines the
  result is exactly that of the report without it.
\<close>

theorem writeCSV_malformed:
  "(i < length lines \<and> lacks_token i (lines ! i) \<longrightarrow>
      (\<exists>e. fst (writeCSV_table lines) = Some e)
      \<and> length (snd (writeCSV_table lines)) \<le> 1 + i div 13)
   \<and> (length body mod 13 = 0 \<and> length tail < 13 \<longrightarrow>
      snd (writeCSV_table (body @ tail)) = snd (writeCSV_table body))
   \<and> (length body mod 13 = 0 \<and> length tail \<le> 4 \<longrightarrow>
      writeCSV_table (body @ tail) = writeCSV_table body)"
proof (intro conjI impI)
  assume "i < length lines \<and> lacks_token i (lines ! i)"
  then have "(\<exists>e. fst (writeCSV_table lines) = Some e)
      \<and> length (snd (writeCSV_table lines)) \<le> 1 + i div 13"
    using table_missing_token [of i lines] by simp
  then show "\<exists>e. fst (writeCSV_table lines) = Some e"
    and "length (snd (writeCSV_table lines)) \<le> 1 + i div 13"
    by simp_all
next
  assume "length body mod 13 = 0 \<and> length tail < 13"
  then show "snd (writeCSV_table (body @ tail)) = snd (writeCSV_table body)"
    using table_partial_rows [of body tail] by simp
next
  assume "length body mod 13 = 0 \<and> length tail \<le> 4"
  then show "writeCSV_table (body @ tail) = writeCSV_table body"
    using table_partial_idle [of body tail] by simp
qed

theorem writeCSV_malformed_witness:
  "(4 < length [''a'', ''b'', ''c'', ''d'', ''Query''] \<and> lacks_token 4 ([''a'', ''b'', ''c'', ''d'', ''Query''] ! 4))
   \<and> ((\<exists>e. fst (writeCSV_table [''a'', ''b'', ''c'', ''d'', ''Query'']) = Some e)
      \<and> length (snd (writeCSV_table [''a'', ''b'', ''c'', ''d'', ''Query''])) \<le> 1 + 4 div 13)
   \<and> (length ([] :: string list) mod 13 = 0 \<and> length [''x''] < 13)
   \<and> snd (writeCSV_table ([] @ [''x''])) = snd (writeCSV_table [])
   \<and> (length ([] :: string list) mod 13 = 0 \<and> length [''x''] \<le> 4)
   \<and> writeCSV_table ([] @ [''x'']) = writeCSV_table []"
proof -
  note inst = writeCSV_malformed [of 4 "[''a'', ''b'', ''c'', ''d'', ''Query'']" "[]" "[''x'']"]
  have h1: "4 < length [''a'', ''b'', ''c'', ''d'', ''Query''] \<and> lacks_token 4 ([''a'', ''b'', ''c'', ''d'', ''Query''] ! 4)"
    by code_simp
  have h2: "length ([] :: string list) mod 13 = 0 \<and> length [''x''] < 13" by simp
  have h3: "length ([] :: string list) mod 13 = 0 \<and> length [''x''] \<le> 4" by simp
  from inst h1 have c1: "(\<exists>e. fst (writeCSV_table [''a'', ''b'', ''c'', ''d'', ''Query'']) = Some e)
      \<and> length (snd (writeCSV_table [''a'', ''b'', ''c'', ''d'', ''Query''])) \<le> 1 + 4 div 13"
    by blast
  from inst h2 have c2: "snd (writeCSV_table ([] @ [''x''])) = snd (writeCSV_table [])"
    by blast
  from inst h3 have c3: "writeCSV_table ([] @ [''x'']) = writeCSV_table []"
    by blast
  from h1 c1 h2 c2 h3 c3 show ?thesis by blast
qed

end
